theory Spec2Isabelle
  imports Complex_Main
begin

section \<open>Strings\<close>

text \<open>
  A JavaScript string is a sequence of UTF-16 code units; \<open>length\<close> counts them and
  \<open>charCodeAt\<close> reads one. Every natural number below \<open>2^16\<close> is a code unit.
\<close>

type_synonym js_string = "nat list"

section \<open>Device performance score (src/sdk/performance.ts) and the orchestrator's gate\<close>

text \<open>
  JavaScript numbers are modelled as reals. \<open>navigator.deviceMemory\<close> and
  \<open>navigator.hardwareConcurrency\<close> may be absent (\<open>None\<close>); \<open>x || d\<close> replaces an
  absent or zero value by the default \<open>d\<close>.
\<close>

definition js_or :: "real option \<Rightarrow> real \<Rightarrow> real" where
  "js_or x d = (case x of None \<Rightarrow> d | Some v \<Rightarrow> if v = 0 then d else v)"

text \<open>
  The effective connection types of the Network Information API. \<open>nav.connection\<close> may be
  absent (\<open>None\<close>); a connection object may lack \<open>effectiveType\<close> (\<open>Some None\<close>).
\<close>

datatype effective_type = Slow2g | G2 | G3 | G4

record navigator =
  deviceMemory :: "real option"
  hardwareConcurrency :: "real option"
  connection :: "effective_type option option"

text \<open>The table \<open>effectiveTypes\<close>; a key that is not in the table reads as undefined.\<close>

fun effectiveTypes :: "effective_type option \<Rightarrow> real option" where
  "effectiveTypes (Some Slow2g) = Some 0"
| "effectiveTypes (Some G2) = Some 0.05"
| "effectiveTypes (Some G3) = Some 0.1"
| "effectiveTypes (Some G4) = Some 0.2"
| "effectiveTypes None = None"

definition getDevicePerformanceScore :: "navigator \<Rightarrow> real" where
  "getDevicePerformanceScore nav =
     (let memory = js_or (deviceMemory nav) 4;
          cores = js_or (hardwareConcurrency nav) 4;
          score0 = 0.5;
          score1 = score0 + min (memory / 16) 0.3;
          score2 = score1 + min (cores / 8) 0.2;
          score3 = (case connection nav of
                      None \<Rightarrow> score2
                    | Some c \<Rightarrow> score2 + js_or (effectiveTypes c) 0.2)
      in min score3 1.0)"

text \<open>
  \<open>InsightLiteSDK.shouldInitialize\<close>: the sampling decision first, then the device
  performance floor of 0.3. The result says which branch returned.
\<close>

datatype init_decision = ExcludedBySampling | ExcludedByPerformance | Initialize

definition shouldInitialize :: "bool \<Rightarrow> navigator \<Rightarrow> init_decision" where
  "shouldInitialize samplingDecision nav =
     (if \<not> samplingDecision then ExcludedBySampling
      else if getDevicePerformanceScore nav < 0.3 then ExcludedByPerformance
      else Initialize)"

section \<open>The pending-event buffer (src/sdk/events.ts)\<close>

text \<open>
  \<open>Array.prototype.slice(-k)\<close> for an integer \<open>k\<close>: the last \<open>k\<close> elements when
  \<open>k > 0\<close>; for \<open>k \<le> 0\<close> the start index \<open>-k\<close> counts from the front.
\<close>

definition slice_neg :: "'a list \<Rightarrow> int \<Rightarrow> 'a list" where
  "slice_neg xs k =
     (if 0 < k then drop (length xs - nat k) xs else drop (nat (- k)) xs)"

text \<open>
  \<open>EventCollector.addEvent\<close>. The outcome of \<open>shouldCollectEvent\<close> (performance
  pressure and a random draw) is the argument \<open>collect\<close>. \<open>flushSize\<close> is an integer
  count.
\<close>

definition addEvent :: "int \<Rightarrow> bool \<Rightarrow> 'e list \<Rightarrow> 'e \<Rightarrow> 'e list" where
  "addEvent flushSize collect events event =
     (if \<not> collect then events
      else let pushed = events @ [event]
           in if int (length pushed) > flushSize * 2
              then slice_neg pushed flushSize
              else pushed)"

section \<open>Configuration validation (src/sdk/core.ts)\<close>

text \<open>A configuration as the constructor receives it: every field may be missing.\<close>

record config =
  siteId :: "js_string option"
  sampleRate :: "real option"
  flushInterval :: "real option"
  flushSize :: "real option"
  maxRetries :: "real option"

datatype config_error =
    ConfigurationRequired
  | SiteIdRequired
  | SampleRateRange
  | FlushIntervalRange
  | FlushSizeRange

text \<open>
  The code units that \<open>String.prototype.trim\<close> removes: white space and line
  terminators.
\<close>

definition is_js_space :: "nat \<Rightarrow> bool" where
  "is_js_space c \<longleftrightarrow>
     c \<in> {9, 10, 11, 12, 13, 32, 160, 5760, 8232, 8233, 8239, 8287, 12288, 65279}
     \<or> (8192 \<le> c \<and> c \<le> 8202)"

definition trim :: "js_string \<Rightarrow> js_string" where
  "trim s = rev (dropWhile is_js_space (rev (dropWhile is_js_space s)))"

text \<open>
  \<open>validateConfig\<close>: \<open>None\<close> for the configuration object is a missing (or non-object)
  argument. \<open>Inl\<close> is the thrown error, \<open>Inr ()\<close> a normal return.
\<close>

definition validateConfig :: "config option \<Rightarrow> config_error + unit" where
  "validateConfig cfg =
     (case cfg of
        None \<Rightarrow> Inl ConfigurationRequired
      | Some c \<Rightarrow>
          if (case siteId c of None \<Rightarrow> True | Some s \<Rightarrow> s = [] \<or> trim s = [])
          then Inl SiteIdRequired
          else if (case sampleRate c of None \<Rightarrow> False | Some r \<Rightarrow> r < 0 \<or> r > 1)
          then Inl SampleRateRange
          else if (case flushInterval c of None \<Rightarrow> False | Some i \<Rightarrow> i < 1000)
          then Inl FlushIntervalRange
          else if (case flushSize c of None \<Rightarrow> False | Some n \<Rightarrow> n < 1)
          then Inl FlushSizeRange
          else Inr ())"

text \<open>
  The constructor's contract as the specification words it: a configuration is invalid when
  \<open>siteId\<close> is missing or empty, \<open>sampleRate\<close> is outside \<open>[0,1]\<close>,
  \<open>flushInterval\<close> is below 1000, \<open>flushSize\<close> is below 1 or \<open>maxRetries\<close> is
  below 0.
\<close>

definition spec_config_invalid :: "config \<Rightarrow> bool" where
  "spec_config_invalid c \<longleftrightarrow>
     (siteId c = None \<or> siteId c = Some [])
     \<or> (case sampleRate c of None \<Rightarrow> False | Some r \<Rightarrow> r < 0 \<or> 1 < r)
     \<or> (case flushInterval c of None \<Rightarrow> False | Some i \<Rightarrow> i < 1000)
     \<or> (case flushSize c of None \<Rightarrow> False | Some n \<Rightarrow> n < 1)
     \<or> (case maxRetries c of None \<Rightarrow> False | Some m \<Rightarrow> m < 0)"

section \<open>Session sampling (SessionManager) and session-id anonymization\<close>

text \<open>
  \<open>ToInt32\<close>: the value of a number as a signed 32-bit integer, which the bitwise
  operators \<open><<\<close> and \<open>&\<close> produce.
\<close>

definition to_int32 :: "int \<Rightarrow> int" where
  "to_int32 x = (x + 2 ^ 31) mod 2 ^ 32 - 2 ^ 31"

text \<open>
  One round of the loop body shared by \<open>SessionManager.hashString\<close> and
  \<open>PrivacyEngine.hashSessionId\<close>: \<open>hash = ((hash << 5) - hash) + char\<close>, then
  \<open>hash = hash & hash\<close>. The shift wraps to 32 bits, the subtraction and addition are
  exact, the conjunction wraps again.
\<close>

definition hash_step :: "int \<Rightarrow> nat \<Rightarrow> int" where
  "hash_step hash char = to_int32 (to_int32 (hash * 32) - hash + int char)"

definition hash_loop :: "js_string \<Rightarrow> int" where
  "hash_loop str = foldl hash_step 0 str"

text \<open>\<open>SessionManager.hashString\<close> returns \<open>Math.abs(hash)\<close>.\<close>

definition hashString :: "js_string \<Rightarrow> int" where
  "hashString str = \<bar>hash_loop str\<bar>"

text \<open>
  The quotient \<open>n / d\<close> of two non-negative integers as JavaScript computes it. Both
  operands are exact doubles, and IEEE-754 binary64 division returns the exact quotient
  rounded to 53 significant bits, ties to even. \<open>mant_shift n d p\<close> is the least exponent
  \<open>q \<ge> p\<close> with \<open>2^52 \<le> n * 2^q / d\<close>: scaled by \<open>2^q\<close> the quotient has its 53-bit
  significand in front of the binary point, \<open>round_half_even\<close> rounds it to an integer, and
  the result is that integer over \<open>2^q\<close>. This covers \<open>0 < d\<close> and quotients that are zero or
  in the normal range below \<open>2^53\<close>, which is where \<open>(hash % 10000) / 10000\<close> lies.
\<close>

definition round_half_even :: "nat \<Rightarrow> nat \<Rightarrow> nat" where
  "round_half_even n d =
     (let q = n div d; r = n mod d
      in if 2 * r < d then q
         else if d < 2 * r then Suc q
         else if even q then q else Suc q)"

function mant_shift :: "nat \<Rightarrow> nat \<Rightarrow> nat \<Rightarrow> nat" where
  "mant_shift n d p =
     (if n = 0 \<or> 2 ^ 52 * d \<le> n * 2 ^ p then p else mant_shift n d (Suc p))"
  by pat_completeness auto
termination
proof (relation "measure (\<lambda>(n, d, p). 2 ^ 52 * d - n * 2 ^ p)")
  show "wf (measure (\<lambda>(n, d, p). 2 ^ 52 * d - n * 2 ^ p))"
    by simp
next
  fix n d p :: nat
  assume a: "\<not> (n = 0 \<or> 2 ^ 52 * d \<le> n * 2 ^ p)"
  then have n: "0 < n" and lt: "n * 2 ^ p < 2 ^ 52 * d"
    by simp_all
  have "0 < n * 2 ^ p" using n by simp
  then have "n * 2 ^ p < 2 * (n * 2 ^ p)" by linarith
  then have "n * 2 ^ p < n * 2 ^ Suc p" by (simp add: mult.left_commute)
  with lt show "((n, d, Suc p), (n, d, p)) \<in> measure (\<lambda>(n, d, p). 2 ^ 52 * d - n * 2 ^ p)"
    by (simp del: power_Suc add: diff_less_mono2)
qed

declare mant_shift.simps [simp del]

definition double_div :: "nat \<Rightarrow> nat \<Rightarrow> real" where
  "double_div n d =
     (if n = 0 then 0
      else let p = mant_shift n d 0;
               m = round_half_even (n * 2 ^ p) d
           in real m / 2 ^ p)"

text \<open>
  \<open>SessionManager.makeSamplingDecision\<close>. The hash is a non-negative integer, so \<open>%\<close> is
  exact and agrees with \<open>mod\<close>; the division is the double division above; the rate is the
  value of the (finite) double passed in, and \<open><\<close> on doubles compares their values.
\<close>

definition makeSamplingDecision :: "js_string \<Rightarrow> real \<Rightarrow> bool" where
  "makeSamplingDecision sid rate =
     (let hash = hashString sid;
          normalized = double_div (nat (hash mod 10000)) 10000
      in normalized < rate)"

text \<open>
  The fields of \<open>SessionManager\<close> that sampling and anonymization read or write;
  \<open>sm_siteId\<close> is \<open>config.siteId\<close>, \<open>samplingDecision = None\<close> is \<open>null\<close>.
\<close>

record session_manager =
  sm_siteId :: js_string
  sessionId :: js_string
  samplingDecision :: "bool option"

definition shouldTrackSession :: "real \<Rightarrow> session_manager \<Rightarrow> bool \<times> session_manager" where
  "shouldTrackSession rate sm =
     (case samplingDecision sm of
        None \<Rightarrow> (let d = makeSamplingDecision (sessionId sm) rate
                 in (d, sm\<lparr>samplingDecision := Some d\<rparr>))
      | Some d \<Rightarrow> (d, sm))"

text \<open>
  \<open>Number.prototype.toString(36)\<close> on a non-negative integer: digits \<open>0-9\<close>, then
  \<open>a-z\<close>.
\<close>

definition digit36 :: "nat \<Rightarrow> nat" where
  "digit36 d = (if d < 10 then 48 + d else 87 + d)"

function to_base36 :: "nat \<Rightarrow> js_string" where
  "to_base36 n = (if n < 36 then [digit36 n] else to_base36 (n div 36) @ [digit36 (n mod 36)])"
  by pat_completeness auto
termination
  by (relation "measure id") auto

declare to_base36.simps [simp del]

text \<open>
  \<open>PrivacyEngine.hashSessionId\<close>: the hash of \<open>sessionId:siteId\<close> (58 is the colon), its
  absolute value in base 36. \<open>SessionManager.getAnonymizedSessionId\<close> computes the same
  from its own fields.
\<close>

definition hashSessionId :: "js_string \<Rightarrow> js_string \<Rightarrow> js_string" where
  "hashSessionId sid site = to_base36 (nat \<bar>hash_loop (sid @ [58] @ site)\<bar>)"

definition getAnonymizedSessionId :: "session_manager \<Rightarrow> js_string" where
  "getAnonymizedSessionId sm =
     to_base36 (nat (hashString (sessionId sm @ [58] @ sm_siteId sm)))"

section \<open>Transport: error classification and retry with backoff (EventTransport)\<close>

text \<open>An ASCII literal as a JavaScript string.\<close>

definition ascii :: "string \<Rightarrow> js_string" where
  "ascii s = map of_char s"

text \<open>\<open>String.prototype.includes\<close>: the argument occurs as a contiguous substring.\<close>

fun js_includes :: "js_string \<Rightarrow> js_string \<Rightarrow> bool" where
  "js_includes [] sub = (sub = [])"
| "js_includes (c # cs) sub = (take (length sub) (c # cs) = sub \<or> js_includes cs sub)"

text \<open>
  \<open>extractHttpStatus\<close> matches the message against the pattern of \<open>HTTP\<close>, one
  space and one or more decimal digits: the leftmost occurrence, the digits taken
  greedily, and reads them with \<open>parseInt(_, 10)\<close>. The status is kept as an exact
  natural number. An error value without a \<open>message\<close> has \<open>message = None\<close>.
\<close>

definition is_digit :: "nat \<Rightarrow> bool" where
  "is_digit c \<longleftrightarrow> 48 \<le> c \<and> c \<le> 57"

definition parseInt :: "js_string \<Rightarrow> nat" where
  "parseInt ds = foldl (\<lambda>a d. 10 * a + (d - 48)) 0 ds"

definition http_status_here :: "js_string \<Rightarrow> nat option" where
  "http_status_here s =
     (if take 5 s = ascii ''HTTP '' then
        (let ds = takeWhile is_digit (drop 5 s)
         in if ds = [] then None else Some (parseInt ds))
      else None)"

fun http_status_match :: "js_string \<Rightarrow> nat option" where
  "http_status_match [] = None"
| "http_status_match (c # cs) =
     (case http_status_here (c # cs) of
        Some n \<Rightarrow> Some n
      | None \<Rightarrow> http_status_match cs)"

record js_error =
  message :: "js_string option"

definition extractHttpStatus :: "js_error \<Rightarrow> nat option" where
  "extractHttpStatus error =
     (case message error of None \<Rightarrow> None | Some m \<Rightarrow> http_status_match m)"

definition message_includes :: "js_error \<Rightarrow> js_string \<Rightarrow> bool" where
  "message_includes error sub =
     (case message error of None \<Rightarrow> False | Some m \<Rightarrow> js_includes m sub)"

text \<open>
  \<open>isRetryableError\<close>; \<open>if (status)\<close> is false for a missing status and for the
  status 0.
\<close>

definition isRetryableError :: "js_error \<Rightarrow> bool" where
  "isRetryableError error =
     (if message_includes error (ascii ''Network error'') then True
      else if message_includes error (ascii ''timeout'') then True
      else (case extractHttpStatus error of
              Some status \<Rightarrow>
                if status \<noteq> 0 then status \<ge> 500 \<or> status = 429 else True
            | None \<Rightarrow> True))"

text \<open>
  The state that sending a batch reads and writes. \<open>queued_event\<close> is \<open>QueuedEvent\<close>
  without its timestamp. Of the transport: \<open>config.maxRetries\<close> (an integer), the field
  \<open>retryCount\<close>, the notifications passed to \<open>emit\<close> in order (\<open>success\<close> with the
  event count, \<open>error\<close> with the error and the events), the delays passed to
  \<open>setTimeout\<close> by \<open>retryWithBackoff\<close> in order, and the number of calls of
  \<open>_attemptSend\<close> so far. The network is the environment \<open>env\<close>: \<open>env n\<close> is the
  outcome of the \<open>n\<close>-th call of \<open>_attemptSend\<close> (counted from 0), \<open>None\<close> when it
  resolves and \<open>Some error\<close> when it rejects.
\<close>

record 'e queued_event =
  events :: "'e list"
  retryCount :: nat

datatype 'e notification = Success nat | Error js_error "'e list"

record 'e transport =
  t_maxRetries :: int
  t_retryCount :: nat
  emitted :: "'e notification list"
  timers :: "nat list"
  attempts :: nat

text \<open>
  \<open>handleSendError\<close> and \<open>retryWithBackoff\<close> call each other; each retry raises the
  batch's retry count, so the recursion ends once it reaches \<open>maxRetries\<close>.
\<close>

function handleSendError ::
    "(nat \<Rightarrow> js_error option) \<Rightarrow> 'e transport \<Rightarrow> 'e queued_event \<Rightarrow> js_error \<Rightarrow> 'e transport"
  and retryWithBackoff ::
    "(nat \<Rightarrow> js_error option) \<Rightarrow> 'e transport \<Rightarrow> 'e queued_event \<Rightarrow> 'e transport"
where
  "handleSendError env t q error =
     (if isRetryableError error \<and> int (retryCount q) < t_maxRetries t
      then retryWithBackoff env t q
      else t\<lparr>emitted := emitted t @ [Error error (events q)]\<rparr>)"
| "retryWithBackoff env t q =
     (let q1 = q\<lparr>retryCount := Suc (retryCount q)\<rparr>;
          t1 = t\<lparr>t_retryCount := Suc (t_retryCount t)\<rparr>;
          delay = min (1000 * 2 ^ (retryCount q1 - 1)) 30000;
          t2 = t1\<lparr>timers := timers t1 @ [delay]\<rparr>
      in case env (attempts t2) of
           None \<Rightarrow> t2\<lparr>attempts := Suc (attempts t2), t_retryCount := 0,
                        emitted := emitted t2 @ [Success (length (events q1))]\<rparr>
         | Some error \<Rightarrow> handleSendError env (t2\<lparr>attempts := Suc (attempts t2)\<rparr>) q1 error)"
  by pat_completeness auto
termination
  by (relation "measure (\<lambda>x. case x of
         Inl (env, t, q, e) \<Rightarrow> 2 * nat (t_maxRetries t - int (retryCount q)) + 1
       | Inr (env, t, q) \<Rightarrow> 2 * max 1 (nat (t_maxRetries t - int (retryCount q))))")
     auto

declare handleSendError.simps [simp del] retryWithBackoff.simps [simp del]

text \<open>The delay before the retry that makes the retry count \<open>k\<close>.\<close>

definition backoff_delay :: "nat \<Rightarrow> nat" where
  "backoff_delay k = min (1000 * 2 ^ (k - 1)) 30000"

text \<open>\<open>sendBatch\<close>: the first attempt, with a fresh retry count.\<close>

definition sendBatch ::
  "(nat \<Rightarrow> js_error option) \<Rightarrow> 'e transport \<Rightarrow> 'e list \<Rightarrow> 'e transport" where
  "sendBatch env t evs =
     (let q = \<lparr>events = evs, retryCount = 0\<rparr>
      in case env (attempts t) of
           None \<Rightarrow> t\<lparr>attempts := Suc (attempts t), t_retryCount := 0,
                       emitted := emitted t @ [Success (length evs)]\<rparr>
         | Some error \<Rightarrow> handleSendError env (t\<lparr>attempts := Suc (attempts t)\<rparr>) q error)"

text \<open>
  The retryable class as the specification words it: a transport-level network failure, a
  timeout, an HTTP status of 500 or more, or the HTTP status 429.
\<close>

definition spec_retryable_class :: "js_error \<Rightarrow> bool" where
  "spec_retryable_class error \<longleftrightarrow>
     message_includes error (ascii ''Network error'')
     \<or> message_includes error (ascii ''timeout'')
     \<or> (case extractHttpStatus error of
           None \<Rightarrow> False
         | Some status \<Rightarrow> status \<ge> 500 \<or> status = 429)"

text \<open>
  Two environments: every attempt rejects with the same error; every attempt resolves.
\<close>

definition always_fails :: "js_error \<Rightarrow> nat \<Rightarrow> js_error option" where
  "always_fails error n = Some error"

definition never_fails :: "nat \<Rightarrow> js_error option" where
  "never_fails n = None"

section \<open>Text redaction (PrivacyEngine.sanitizeTextPatterns)\<close>

text \<open>The mask character U+25CF.\<close>

definition maskChar :: nat where
  "maskChar = 9679"

subsection \<open>The regular expressions of \<open>dataPatterns\<close>\<close>

text \<open>
  The five patterns use literals, five classes (decimal digits; word characters; word
  characters, dot and dash; dash, dot and white space; dash and white space), the word
  boundary assertion, sequencing, the greedy quantifiers \<open>?\<close> and \<open>+\<close> (the latter on
  classes only) and counted repetition. None has the \<open>i\<close> or \<open>u\<close> flag, so a word
  character is one of \<open>[A-Za-z0-9_]\<close>; white space is what \<open>trim\<close> removes.
\<close>

definition is_word :: "nat \<Rightarrow> bool" where
  "is_word c \<longleftrightarrow>
     (48 \<le> c \<and> c \<le> 57) \<or> (65 \<le> c \<and> c \<le> 90) \<or> c = 95 \<or> (97 \<le> c \<and> c \<le> 122)"

datatype cclass = Lit nat | Digit | Word | WordDotDash | DashDotSpace | DashSpace

fun in_class :: "cclass \<Rightarrow> nat \<Rightarrow> bool" where
  "in_class (Lit k) c = (c = k)"
| "in_class Digit c = is_digit c"
| "in_class Word c = is_word c"
| "in_class WordDotDash c = (is_word c \<or> c = 46 \<or> c = 45)"
| "in_class DashDotSpace c = (c = 45 \<or> c = 46 \<or> is_js_space c)"
| "in_class DashSpace c = (c = 45 \<or> is_js_space c)"

datatype regex = WordB | One cclass | Plus cclass | Seq regex regex | Opt regex | Rep nat regex

text \<open>
  The word boundary assertion holds at position \<open>i\<close> when exactly one of the code units
  before and at \<open>i\<close> is a word character; outside the string there is none.
\<close>

definition word_at :: "js_string \<Rightarrow> nat \<Rightarrow> bool" where
  "word_at s i \<longleftrightarrow> i < length s \<and> is_word (s ! i)"

definition is_boundary :: "js_string \<Rightarrow> nat \<Rightarrow> bool" where
  "is_boundary s i \<longleftrightarrow> ((0 < i \<and> word_at s (i - 1)) \<noteq> word_at s i)"

text \<open>
  The backtracking matcher as a list of successes: \<open>ends r s i\<close> lists the positions at
  which a match of \<open>r\<close> that starts at \<open>i\<close> can end, in the order in which backtracking
  tries them. A greedy quantifier tries the longer alternative first. The match that
  \<open>exec\<close> reports at \<open>i\<close> is the head of the list.
\<close>

fun iter :: "nat \<Rightarrow> (nat \<Rightarrow> nat list) \<Rightarrow> nat \<Rightarrow> nat list" where
  "iter 0 f i = [i]"
| "iter (Suc n) f i = concat (map (iter n f) (f i))"

fun ends :: "regex \<Rightarrow> js_string \<Rightarrow> nat \<Rightarrow> nat list" where
  "ends WordB s i = (if is_boundary s i then [i] else [])"
| "ends (One c) s i = (if i < length s \<and> in_class c (s ! i) then [Suc i] else [])"
| "ends (Plus c) s i =
     map (\<lambda>k. i + k) (rev [1 ..< Suc (length (takeWhile (in_class c) (drop i s)))])"
| "ends (Seq a b) s i = concat (map (ends b s) (ends a s i))"
| "ends (Opt r) s i = ends r s i @ [i]"
| "ends (Rep n r) s i = iter n (ends r s) i"

fun seq :: "regex list \<Rightarrow> regex" where
  "seq [] = Rep 0 WordB"
| "seq [r] = r"
| "seq (r # rs) = Seq r (seq rs)"

text \<open>
  The patterns, in the insertion order of the map. The literals are \<open>@\<close> (64), \<open>.\<close> (46),
  \<open>+\<close> (43), \<open>1\<close> (49), \<open>(\<close> (40) and \<open>)\<close> (41); \<open>digits_1_3\<close> is \<open>[0-9]{1,3}\<close>.
\<close>

definition email :: regex where
  "email = seq [WordB, Plus WordDotDash, One (Lit 64), Plus WordDotDash, One (Lit 46),
     Plus Word, WordB]"

definition phone :: regex where
  "phone = seq [WordB, Opt (seq [One (Lit 43), One (Lit 49), Opt (One DashDotSpace)]),
     Opt (One (Lit 40)), Rep 3 (One Digit), Opt (One (Lit 41)), Opt (One DashDotSpace),
     Rep 3 (One Digit), Opt (One DashDotSpace), Rep 4 (One Digit), WordB]"

definition ssn :: regex where
  "ssn = seq [WordB, Rep 3 (One Digit), Opt (One DashSpace), Rep 2 (One Digit),
     Opt (One DashSpace), Rep 4 (One Digit), WordB]"

definition creditCard :: regex where
  "creditCard = seq [WordB, Rep 3 (seq [Rep 4 (One Digit), Opt (One DashSpace)]),
     Rep 4 (One Digit), WordB]"

definition digits_1_3 :: regex where
  "digits_1_3 = seq [One Digit, Opt (seq [One Digit, Opt (One Digit)])]"

definition ipAddress :: regex where
  "ipAddress = seq [WordB, Rep 3 (seq [digits_1_3, One (Lit 46)]), digits_1_3, WordB]"

definition dataPatterns :: "regex list" where
  "dataPatterns = [email, phone, ssn, creditCard, ipAddress]"

subsection \<open>Global replacement by the mask\<close>

text \<open>
  \<open>sanitized.replace(pattern, (match) => maskChar.repeat(match.length))\<close> with a global
  pattern. \<open>scan r s i t\<close> is the search from \<open>lastIndex = i\<close>: matching reads the subject
  \<open>s\<close>, and \<open>t\<close> is the result so far, in which the matches found are overwritten. Where no
  match starts at \<open>i\<close>, or only an empty one (whose replacement is the empty string), the
  search moves on by one code unit; after a match that ends at \<open>e\<close> it resumes at \<open>e\<close>.
\<close>

definition mask_range :: "js_string \<Rightarrow> nat \<Rightarrow> nat \<Rightarrow> js_string" where
  "mask_range t i e = take i t @ replicate (e - i) maskChar @ drop e t"

function scan :: "regex \<Rightarrow> js_string \<Rightarrow> nat \<Rightarrow> js_string \<Rightarrow> js_string" where
  "scan r s i t =
     (if length s \<le> i then t
      else case ends r s i of
             [] \<Rightarrow> scan r s (Suc i) t
           | e # _ \<Rightarrow> if e \<le> i then scan r s (Suc i) t
                      else scan r s e (mask_range t i e))"
  by pat_completeness auto
termination
  by (relation "measure (\<lambda>(r, s, i, t). length s - i)") auto

declare scan.simps [simp del]

definition replace_all :: "regex \<Rightarrow> js_string \<Rightarrow> js_string" where
  "replace_all r s = scan r s 0 s"

definition sanitizeTextPatterns :: "js_string \<Rightarrow> js_string" where
  "sanitizeTextPatterns text =
     foldl (\<lambda>sanitized pattern. replace_all pattern sanitized) text dataPatterns"





subsection \<open>Notions used in the proofs about the patterns\<close>

text \<open>
  A lower bound on the length of a match; whether a code unit is outside every class of an
  expression; whether an expression begins, or ends, with the word boundary assertion.
\<close>

fun min_len :: "regex \<Rightarrow> nat" where
  "min_len WordB = 0"
| "min_len (One c) = 1"
| "min_len (Plus c) = 1"
| "min_len (Seq a b) = min_len a + min_len b"
| "min_len (Opt r) = 0"
| "min_len (Rep n r) = n * min_len r"

fun avoids :: "nat \<Rightarrow> regex \<Rightarrow> bool" where
  "avoids m WordB = True"
| "avoids m (One c) = (\<not> in_class c m)"
| "avoids m (Plus c) = (\<not> in_class c m)"
| "avoids m (Seq a b) = (avoids m a \<and> avoids m b)"
| "avoids m (Opt r) = avoids m r"
| "avoids m (Rep n r) = avoids m r"

fun starts_at_boundary :: "regex \<Rightarrow> bool" where
  "starts_at_boundary WordB = True"
| "starts_at_boundary (Seq a b) = starts_at_boundary a"
| "starts_at_boundary _ = False"

fun ends_at_boundary :: "regex \<Rightarrow> bool" where
  "ends_at_boundary WordB = True"
| "ends_at_boundary (Seq a b) = ends_at_boundary b"
| "ends_at_boundary _ = False"

definition wf_pattern :: "regex \<Rightarrow> bool" where
  "wf_pattern r \<longleftrightarrow>
     starts_at_boundary r \<and> ends_at_boundary r \<and> 0 < min_len r \<and> avoids maskChar r"

text \<open>
  \<open>masking s t\<close>: \<open>t\<close> is \<open>s\<close> with some code units overwritten by the mask, and every
  word boundary of \<open>t\<close> is one of \<open>s\<close>.
\<close>

definition masking :: "js_string \<Rightarrow> js_string \<Rightarrow> bool" where
  "masking s t \<longleftrightarrow> length t = length s
     \<and> (\<forall>j<length s. t ! j = s ! j \<or> t ! j = maskChar)
     \<and> (\<forall>q. is_boundary t q \<longrightarrow> is_boundary s q)"

definition apply_all :: "regex list \<Rightarrow> js_string \<Rightarrow> js_string" where
  "apply_all ps s = foldl (\<lambda>sanitized pattern. replace_all pattern sanitized) s ps"

section \<open>Payload sanitization (PrivacyEngine.sanitizeData)\<close>

subsection \<open>Sensitive field names\<close>

text \<open>
  \<open>toLowerCase\<close> on the code units whose lower case contains an ASCII letter: \<open>A-Z\<close>,
  U+0130 (which becomes \<open>i\<close> and U+0307) and U+212A (which becomes \<open>k\<close>). Every other
  code unit is kept; its lower case is no ASCII letter, dash or underscore, and the
  sensitive names are ASCII.
\<close>

definition lower1 :: "nat \<Rightarrow> js_string" where
  "lower1 c = (if 65 \<le> c \<and> c \<le> 90 then [c + 32]
               else if c = 304 then [105, 775]
               else if c = 8490 then [107]
               else [c])"

definition toLowerCase :: "js_string \<Rightarrow> js_string" where
  "toLowerCase s = concat (map lower1 s)"

definition sensitiveFields :: "js_string list" where
  "sensitiveFields = map ascii
     [''email'', ''password'', ''pass'', ''pwd'', ''token'', ''key'',
      ''firstname'', ''lastname'', ''phone'', ''tel'', ''mobile'',
      ''ssn'', ''social'', ''creditcard'', ''cardnumber'',
      ''userid'', ''customerid'', ''sessionid'']"

text \<open>\<open>isSensitiveField\<close>: lower case, dashes (45) and underscores (95) removed.\<close>

definition isSensitiveField :: "js_string \<Rightarrow> bool" where
  "isSensitiveField fieldName =
     (let normalizedField = filter (\<lambda>c. c \<noteq> 45 \<and> c \<noteq> 95) (toLowerCase fieldName)
      in list_ex (\<lambda>sensitive. js_includes normalizedField sensitive) sensitiveFields)"

subsection \<open>Values\<close>

text \<open>
  The values that \<open>sanitizeData\<close> receives, as the tree that the traversal walks.
  \<open>JPrim\<close> is a value that is neither a string nor an object for \<open>typeof\<close> (a number,
  a boolean, a function, ...), given by its rendering under \<open>String()\<close>. An array has its
  elements, an object that is not an array its own enumerable properties in the order of
  \<open>Object.entries\<close> (distinct keys, none of them \<open>__proto__\<close>). Both carry

  \<^item> their identity, a number: two nodes with the same number are the same object, so a
    node below a node of the same number is a circular reference (what is listed below
    such a node is not read);
  \<^item> the result of \<open>String()\<close> on them, \<open>None\<close> when that conversion throws (an
    object without a prototype, for instance).
\<close>

datatype jsval =
    JNull
  | JUndefined
  | JPrim js_string
  | JStr js_string
  | JArr nat "js_string option" "jsval list"
  | JObj nat "js_string option" "(js_string \<times> jsval) list"

text \<open>\<open>String(value)\<close>; \<open>None\<close> when the conversion throws.\<close>

fun js_String :: "jsval \<Rightarrow> js_string option" where
  "js_String JNull = Some (ascii ''null'')"
| "js_String JUndefined = Some (ascii ''undefined'')"
| "js_String (JPrim r) = Some r"
| "js_String (JStr s) = Some s"
| "js_String (JArr i str xs) = str"
| "js_String (JObj i str kvs) = str"

text \<open>
  \<open>String()\<close> on a fresh array, as \<open>map\<close> returns one: the renderings of its elements
  joined by commas (44), null and undefined elements rendered empty.
\<close>

fun join_comma :: "js_string list \<Rightarrow> js_string" where
  "join_comma [] = []"
| "join_comma [x] = x"
| "join_comma (x # y # ys) = x @ [44] @ join_comma (y # ys)"

definition array_String :: "jsval list \<Rightarrow> js_string option" where
  "array_String xs =
     map_option join_comma
       (those (map (\<lambda>v. if v = JNull \<or> v = JUndefined then Some [] else js_String v) xs))"

definition object_Object :: js_string where
  "object_Object = ascii ''[object Object]''"

definition circular :: js_string where
  "circular = ascii ''[Circular]''"

datatype js_exn = TypeError

definition maskValue :: "jsval \<Rightarrow> js_exn + js_string" where
  "maskValue v =
     (if v = JNull \<or> v = JUndefined then Inr []
      else case js_String v of
             None \<Rightarrow> Inl TypeError
           | Some stringValue \<Rightarrow> Inr (replicate (length stringValue) maskChar))"

text \<open>The results of a loop in order, up to the first exception.\<close>

fun collect :: "('e + 'a) list \<Rightarrow> 'e + 'a list" where
  "collect [] = Inr []"
| "collect (Inl e # rs) = Inl e"
| "collect (Inr x # rs) = (case collect rs of Inl e \<Rightarrow> Inl e | Inr xs \<Rightarrow> Inr (x # xs))"

text \<open>
  \<open>_sanitizeValue\<close>; \<open>visited\<close> is the set of the identities of the arrays and objects
  that enclose the value. The result of an array or object is a new array or object; it is
  given the number of the one it was made from. The result of an object is a plain object,
  whose rendering is \<open>[object Object]\<close> (a key that shadows \<open>toString\<close> or
  \<open>valueOf\<close> would change the rendering; such keys are not modelled).
\<close>

fun sanitizeValue :: "jsval \<Rightarrow> nat set \<Rightarrow> js_exn + jsval" where
  "sanitizeValue (JStr s) visited = Inr (JStr (sanitizeTextPatterns s))"
| "sanitizeValue (JArr i str xs) visited =
     (if i \<in> visited then Inr (JStr circular)
      else case collect (map (\<lambda>item. sanitizeValue item (insert i visited)) xs) of
             Inl e \<Rightarrow> Inl e
           | Inr result \<Rightarrow> Inr (JArr i (array_String result) result))"
| "sanitizeValue (JObj i str kvs) visited =
     (if i \<in> visited then Inr (JStr circular)
      else case collect (map (\<lambda>(key, val).
                case (if isSensitiveField key then map_sum id JStr (maskValue val)
                      else sanitizeValue val (insert i visited)) of
                  Inl e \<Rightarrow> Inl e
                | Inr v \<Rightarrow> Inr (key, v)) kvs) of
             Inl e \<Rightarrow> Inl e
           | Inr result \<Rightarrow> Inr (JObj i (Some object_Object) result))"
| "sanitizeValue v visited = Inr v"

text \<open>
  \<open>sanitizeData\<close> returns the value and the lines it writes to the console; its
  \<open>catch\<close> writes one warning with \<open>console.warn\<close>. The engine holds the privacy mode
  and nothing of the rest of the configuration.
\<close>

datatype console_line = Warn js_exn

datatype privacy_mode = Strict | Balanced | Permissive

record privacy_engine =
  mode :: privacy_mode

definition sanitizeData :: "privacy_engine \<Rightarrow> jsval \<Rightarrow> jsval \<times> console_line list" where
  "sanitizeData this data =
     (if data = JNull \<or> data = JUndefined then (data, [])
      else case sanitizeValue data {} of
             Inr v \<Rightarrow> (v, [])
           | Inl error \<Rightarrow> (data, [Warn error]))"

text \<open>
  Of \<open>InsightLiteSDK\<close>: \<open>config.debug\<close> and the privacy engine. \<open>identify\<close> first
  evaluates \<open>this.privacyEngine.sanitizeData(traits)\<close>, whatever the state of the
  instance.
\<close>

record sdk =
  debug :: bool
  privacyEngine :: privacy_engine

definition identify_sanitized :: "sdk \<Rightarrow> jsval \<Rightarrow> jsval \<times> console_line list" where
  "identify_sanitized this traits = sanitizeData (privacyEngine this) traits"

section \<open>Properties of the device performance score\<close>

lemma js_or_nonneg: "(\<And>v. x = Some v \<Longrightarrow> 0 \<le> v) \<Longrightarrow> 0 \<le> d \<Longrightarrow> 0 \<le> js_or x d"
  by (auto simp: js_or_def split: option.splits)

lemma effectiveTypes_nonneg: "0 \<le> js_or (effectiveTypes c) 0.2"
  by (cases c rule: effectiveTypes.cases) (simp_all add: js_or_def)

text \<open>
  C10. Whenever the reported device memory and core count are not negative (absent values
  take their defaults), and for every connection class, \<open>getDevicePerformanceScore\<close>
  lies in \<open>[0.5, 1.0]\<close>. Hence \<open>shouldInitialize\<close> never leaves through the
  low-device branch (score below 0.3): its result is decided by the sampling decision alone.
\<close>

theorem getDevicePerformanceScore_range:
  assumes "\<And>m. deviceMemory nav = Some m \<Longrightarrow> 0 \<le> m"
      and "\<And>c. hardwareConcurrency nav = Some c \<Longrightarrow> 0 \<le> c"
  shows "0.5 \<le> getDevicePerformanceScore nav \<and> getDevicePerformanceScore nav \<le> 1.0
     \<and> shouldInitialize sd nav \<noteq> ExcludedByPerformance
     \<and> shouldInitialize sd nav = (if sd then Initialize else ExcludedBySampling)"
proof -
  have m: "0 \<le> js_or (deviceMemory nav) 4"
    using assms(1) by (intro js_or_nonneg) auto
  have c: "0 \<le> js_or (hardwareConcurrency nav) 4"
    using assms(2) by (intro js_or_nonneg) auto
  have e: "0 \<le> (case connection nav of None \<Rightarrow> 0 | Some t \<Rightarrow> js_or (effectiveTypes t) 0.2)"
    using effectiveTypes_nonneg by (simp split: option.splits)
  have a: "0 \<le> min (js_or (deviceMemory nav) 4 / 16) 0.3"
    using m by simp
  have b: "0 \<le> min (js_or (hardwareConcurrency nav) 4 / 8) 0.2"
    using c by simp
  have lo: "0.5 \<le> getDevicePerformanceScore nav"
    using a b e
    by (simp add: getDevicePerformanceScore_def Let_def split: option.splits)
  have hi: "getDevicePerformanceScore nav \<le> 1.0"
    by (simp add: getDevicePerformanceScore_def Let_def)
  from lo hi show ?thesis
    by (simp add: shouldInitialize_def)
qed

theorem getDevicePerformanceScore_range_witness:
  "0.5 \<le> getDevicePerformanceScore
       \<lparr>deviceMemory = Some 0.25, hardwareConcurrency = Some 2, connection = Some (Some Slow2g)\<rparr>
   \<and> getDevicePerformanceScore
       \<lparr>deviceMemory = Some 0.25, hardwareConcurrency = Some 2, connection = Some (Some Slow2g)\<rparr>
       \<le> 1.0
   \<and> shouldInitialize True
       \<lparr>deviceMemory = Some 0.25, hardwareConcurrency = Some 2, connection = Some (Some Slow2g)\<rparr>
       = Initialize"
  using getDevicePerformanceScore_range
    [of "\<lparr>deviceMemory = Some 0.25, hardwareConcurrency = Some 2,
          connection = Some (Some Slow2g)\<rparr>" True]
  by simp

section \<open>Properties of the pending-event buffer\<close>

text \<open>
  C7. With \<open>flushSize \<ge> 1\<close> (which the constructor enforces) and a buffer within the
  bound, the buffer after \<open>addEvent\<close> holds at most \<open>2 * flushSize\<close> events. When the
  added event would take the buffer past the bound, the buffer becomes exactly the last
  \<open>flushSize\<close> events of the old buffer followed by the new event: the oldest are dropped,
  the order is kept.
\<close>

theorem addEvent_bounded:
  assumes "1 \<le> F" and "int (length evs) \<le> 2 * F"
  shows "int (length (addEvent F c evs e)) \<le> 2 * F
     \<and> (c \<and> 2 * F < int (length evs) + 1 \<longrightarrow>
          addEvent F c evs e = drop (length evs + 1 - nat F) (evs @ [e])
          \<and> int (length (addEvent F c evs e)) = F)
     \<and> (c \<and> int (length evs) + 1 \<le> 2 * F \<longrightarrow> addEvent F c evs e = evs @ [e])
     \<and> (\<not> c \<longrightarrow> addEvent F c evs e = evs)"
  using assms by (auto simp: addEvent_def slice_neg_def Let_def)

theorem addEvent_bounded_witness:
  "int (length (addEvent 2 True [10, 20, 30, 40 :: nat] 50)) \<le> 2 * 2
   \<and> addEvent 2 True [10, 20, 30, 40 :: nat] 50 = [40, 50]"
  using addEvent_bounded [of 2 "[10, 20, 30, 40 :: nat]" True 50]
  by simp

section \<open>Properties of configuration validation\<close>

lemma trim_Nil: "trim [] = []"
  by (simp add: trim_def)

text \<open>
  C8, as the specification states it, fails: a configuration with a proper \<open>siteId\<close> and
  \<open>maxRetries = -1\<close> is invalid by the specification's list, and \<open>validateConfig\<close>
  accepts it.
\<close>

theorem validateConfig_maxRetries_counterexample:
  "spec_config_invalid \<lparr>siteId = Some [115, 105, 116, 101], sampleRate = None,
       flushInterval = None, flushSize = None, maxRetries = Some (- 1)\<rparr>
   \<and> validateConfig (Some \<lparr>siteId = Some [115, 105, 116, 101], sampleRate = None,
       flushInterval = None, flushSize = None, maxRetries = Some (- 1)\<rparr>) = Inr ()"
  by (simp add: spec_config_invalid_def validateConfig_def trim_def is_js_space_def)

text \<open>
  C8, amended. For a configuration object, \<open>validateConfig\<close> throws exactly when
  \<open>siteId\<close> is missing, empty or blank, or \<open>sampleRate\<close> is given outside \<open>[0,1]\<close>,
  or \<open>flushInterval\<close> is given below 1000, or \<open>flushSize\<close> is given below 1;
  \<open>maxRetries\<close> is not examined.
\<close>

theorem validateConfig_throws_iff:
  "(validateConfig (Some c) \<noteq> Inr ()) =
     ((case siteId c of None \<Rightarrow> True | Some s \<Rightarrow> trim s = [])
      \<or> (case sampleRate c of None \<Rightarrow> False | Some r \<Rightarrow> r < 0 \<or> 1 < r)
      \<or> (case flushInterval c of None \<Rightarrow> False | Some i \<Rightarrow> i < 1000)
      \<or> (case flushSize c of None \<Rightarrow> False | Some n \<Rightarrow> n < 1))
   \<and> validateConfig (Some (c\<lparr>maxRetries := m\<rparr>)) = validateConfig (Some c)"
  by (auto simp: validateConfig_def trim_Nil split: option.splits)

theorem validateConfig_throws_iff_witness:
  "validateConfig (Some \<lparr>siteId = Some [115], sampleRate = Some 0.2,
       flushInterval = Some 5000, flushSize = Some 50, maxRetries = Some (- 3)\<rparr>)
   = validateConfig (Some \<lparr>siteId = Some [115], sampleRate = Some 0.2,
       flushInterval = Some 5000, flushSize = Some 50, maxRetries = None\<rparr>)"
  using validateConfig_throws_iff
    [of "\<lparr>siteId = Some [115], sampleRate = Some 0.2, flushInterval = Some 5000,
          flushSize = Some 50, maxRetries = None\<rparr>" "Some (- 3)"]
  by simp

section \<open>Properties of session sampling and of the anonymization hash\<close>

lemma to_int32_range: "- (2 ^ 31) \<le> to_int32 x \<and> to_int32 x < 2 ^ 31"
  unfolding to_int32_def by (simp add: pos_mod_bound)

lemma hash_loop_range: "- (2 ^ 31) \<le> hash_loop s \<and> hash_loop s < 2 ^ 31"
proof (induction s rule: rev_induct)
  case Nil
  show ?case by (simp add: hash_loop_def)
next
  case (snoc c s)
  show ?case using to_int32_range
    by (simp add: hash_loop_def hash_step_def)
qed

lemma hashString_range: "0 \<le> hashString s \<and> hashString s \<le> 2 ^ 31"
  using hash_loop_range [of s] unfolding hashString_def by linarith

lemma to_int32_cong: "x mod 2 ^ 32 = y mod 2 ^ 32 \<Longrightarrow> to_int32 x = to_int32 y"
proof -
  assume "x mod 2 ^ 32 = y mod 2 ^ 32"
  then have "(x + 2 ^ 31) mod 2 ^ 32 = (y + 2 ^ 31) mod 2 ^ 32"
    by (metis mod_add_left_eq)
  then show ?thesis by (simp add: to_int32_def)
qed

lemma to_int32_mod: "to_int32 x mod 2 ^ 32 = x mod 2 ^ 32"
proof -
  have "to_int32 x mod 2 ^ 32 = ((x + 2 ^ 31) mod 2 ^ 32 - 2 ^ 31) mod 2 ^ 32"
    by (simp add: to_int32_def)
  also have "\<dots> = ((x + 2 ^ 31) - 2 ^ 31) mod 2 ^ 32"
    by (rule mod_diff_left_eq)
  finally show ?thesis by simp
qed

lemma hash_step_poly: "hash_step (to_int32 a) c = to_int32 (31 * a + int c)"
proof -
  have "(to_int32 (to_int32 a * 32) - to_int32 a + int c) mod 2 ^ 32
        = (31 * a + int c) mod 2 ^ 32"
  proof -
    have 1: "to_int32 (to_int32 a * 32) mod 2 ^ 32 = (a * 32) mod 2 ^ 32"
    proof -
      have "to_int32 (to_int32 a * 32) mod 2 ^ 32 = (to_int32 a * 32) mod 2 ^ 32"
        by (rule to_int32_mod)
      also have "\<dots> = (a * 32) mod 2 ^ 32"
        by (rule mod_mult_cong [OF to_int32_mod refl])
      finally show ?thesis .
    qed
    have 2: "(to_int32 (to_int32 a * 32) - to_int32 a) mod 2 ^ 32 = (a * 32 - a) mod 2 ^ 32"
      using 1 to_int32_mod [of a] by (rule mod_diff_cong)
    have "(to_int32 (to_int32 a * 32) - to_int32 a + int c) mod 2 ^ 32
          = (a * 32 - a + int c) mod 2 ^ 32"
      using 2 refl by (rule mod_add_cong)
    then show ?thesis by (simp add: algebra_simps)
  qed
  then show ?thesis unfolding hash_step_def by (rule to_int32_cong)
qed

lemma hash_loop_horner: "hash_loop s = to_int32 (foldl (\<lambda>a c. 31 * a + int c) 0 s)"
proof (induction s rule: rev_induct)
  case Nil
  show ?case by (simp add: hash_loop_def to_int32_def)
next
  case (snoc c s)
  have "hash_loop (s @ [c]) = hash_step (hash_loop s) c" by (simp add: hash_loop_def)
  also have "\<dots> = to_int32 (31 * foldl (\<lambda>a c. 31 * a + int c) 0 s + int c)"
    unfolding snoc.IH by (rule hash_step_poly)
  finally show ?case by simp
qed

lemma horner_sum_31:
  "foldl (\<lambda>a c. 31 * a + int c) 0 s
     = (\<Sum>i<length s. int (s ! i) * 31 ^ (length s - 1 - i))"
proof (induction s rule: rev_induct)
  case Nil
  show ?case by simp
next
  case (snoc c s)
  have "(\<Sum>i<length s. int ((s @ [c]) ! i) * 31 ^ (length (s @ [c]) - 1 - i))
        = (\<Sum>i<length s. 31 * (int (s ! i) * 31 ^ (length s - 1 - i)))"
  proof (rule sum.cong)
    fix i assume "i \<in> {..<length s}"
    then have i: "i < length s" by simp
    then have "length s - i = Suc (length s - 1 - i)" by simp
    with i show "int ((s @ [c]) ! i) * 31 ^ (length (s @ [c]) - 1 - i)
        = 31 * (int (s ! i) * 31 ^ (length s - 1 - i))"
      by (simp add: nth_append)
  qed simp
  then have "(\<Sum>i<length (s @ [c]). int ((s @ [c]) ! i) * 31 ^ (length (s @ [c]) - 1 - i))
        = 31 * (\<Sum>i<length s. int (s ! i) * 31 ^ (length s - 1 - i)) + int c"
    by (simp add: sum_distrib_left)
  with snoc.IH show ?case by simp
qed

lemma hashString_closed:
  "hashString s = \<bar>to_int32 (\<Sum>i<length s. int (s ! i) * 31 ^ (length s - 1 - i))\<bar>"
  by (simp add: hashString_def hash_loop_horner horner_sum_31)

lemma mant_shift_spec:
  "0 < n \<Longrightarrow> p \<le> mant_shift n d p \<and> 2 ^ 52 * d \<le> n * 2 ^ mant_shift n d p"
proof (induction n d p rule: mant_shift.induct)
  case (1 n d p)
  show ?case
  proof (cases "2 ^ 52 * d \<le> n * 2 ^ p")
    case True
    then show ?thesis by (subst (1 2) mant_shift.simps) simp
  next
    case False
    with "1.prems" have "\<not> (n = 0 \<or> 2 ^ 52 * d \<le> n * 2 ^ p)" by simp
    from "1.IH" [OF this "1.prems"] False "1.prems" show ?thesis
      by (subst (1 2) mant_shift.simps) simp
  qed
qed

lemma round_half_even_err:
  assumes "0 < d"
  shows "\<bar>real (round_half_even N d) - real N / real d\<bar> \<le> 1 / 2"
proof -
  define q r where "q = N div d" and "r = N mod d"
  have N: "real N = real q * real d + real r"
    unfolding q_def r_def by (metis div_mult_mod_eq of_nat_add of_nat_mult)
  have rd: "r < d" unfolding r_def using assms by simp
  have d: "0 < real d" using assms by simp
  have q: "real N / real d = real q + real r / real d"
    unfolding N using d by (simp add: field_simps)
  have cases: "round_half_even N d = q \<and> 2 * r \<le> d \<or> round_half_even N d = Suc q \<and> d \<le> 2 * r"
    unfolding round_half_even_def Let_def q_def [symmetric] r_def [symmetric] by auto
  then show ?thesis
  proof
    assume a: "round_half_even N d = q \<and> 2 * r \<le> d"
    then have "2 * real r \<le> real d" by (metis of_nat_le_iff of_nat_mult of_nat_numeral)
    then have "real r / real d \<le> 1 / 2" using d by (simp add: field_simps)
    moreover have "0 \<le> real r / real d" using d by simp
    ultimately show ?thesis using a q by simp
  next
    assume a: "round_half_even N d = Suc q \<and> d \<le> 2 * r"
    then have "real d \<le> 2 * real r" by (metis of_nat_le_iff of_nat_mult of_nat_numeral)
    then have "1 / 2 \<le> real r / real d" using d by (simp add: field_simps)
    moreover have "real r / real d < 1" using d rd by simp
    ultimately show ?thesis using a q by simp
  qed
qed

lemma double_div_error:
  assumes "n < d"
  shows "\<bar>double_div n d - real n / real d\<bar> \<le> 1 / 2 ^ 54"
proof (cases "n = 0")
  case True
  then show ?thesis by (simp add: double_div_def)
next
  case False
  then have n: "0 < n" by simp
  have d: "0 < d" using assms by simp
  define p where "p = mant_shift n d 0"
  define m where "m = round_half_even (n * 2 ^ p) d"
  have dd: "double_div n d = real m / 2 ^ p"
    using False by (simp add: double_div_def Let_def p_def m_def)
  have "2 ^ 52 * d \<le> n * 2 ^ p" unfolding p_def using mant_shift_spec [OF n] by blast
  also have "\<dots> < d * 2 ^ p" using assms by simp
  finally have "(2::nat) ^ 52 < 2 ^ p" using d by simp
  then have "52 < p" using power_less_imp_less_exp [of 2 52 p] by simp
  then have "53 \<le> p" by simp
  then have pw: "(2::real) ^ 53 \<le> 2 ^ p" by (rule power_increasing) simp
  have "\<bar>real m - real (n * 2 ^ p) / real d\<bar> \<le> 1 / 2"
    unfolding m_def using d by (rule round_half_even_err)
  then have "\<bar>real m - real n / real d * 2 ^ p\<bar> \<le> 1 / 2" by (simp add: field_simps)
  then have "\<bar>real m - real n / real d * 2 ^ p\<bar> / 2 ^ p \<le> (1 / 2) / 2 ^ p"
    by (rule divide_right_mono) simp
  moreover have "\<bar>real m - real n / real d * 2 ^ p\<bar> / 2 ^ p = \<bar>real m / 2 ^ p - real n / real d\<bar>"
  proof -
    have "\<bar>real m - real n / real d * 2 ^ p\<bar> / 2 ^ p = \<bar>(real m - real n / real d * 2 ^ p) / 2 ^ p\<bar>"
      by simp
    also have "(real m - real n / real d * 2 ^ p) / 2 ^ p = real m / 2 ^ p - real n / real d"
      by (simp add: field_simps)
    finally show ?thesis .
  qed
  moreover have "(1 / 2) / 2 ^ p \<le> (1 / 2) / (2::real) ^ 53"
    using pw by (simp add: frac_le)
  ultimately have "\<bar>real m / 2 ^ p - real n / real d\<bar> \<le> (1 / 2) / (2::real) ^ 53"
    by linarith
  then show ?thesis unfolding dd by simp
qed

lemma double_div_10000_10000: "double_div 10000 10000 = 1"
  by (simp add: double_div_def mant_shift.simps round_half_even_def Let_def)

lemma double_div_10000_near:
  assumes "a < 10000"
  shows "\<bar>double_div a 10000 - real a / 10000\<bar> \<le> 1 / 100000"
proof -
  have "\<bar>double_div a 10000 - real a / real 10000\<bar> \<le> 1 / 2 ^ 54"
    using assms by (rule double_div_error)
  moreover have "(1::real) / 2 ^ 54 \<le> 1 / 100000" by simp
  ultimately have "\<bar>double_div a 10000 - real a / real 10000\<bar> \<le> 1 / 100000"
    by (rule order_trans)
  then show ?thesis by simp
qed

lemma double_div_10000_mono:
  assumes "a < k" and "k \<le> 10000"
  shows "double_div a 10000 < double_div k 10000"
proof -
  have a: "a < 10000" using assms by simp
  note ea = double_div_10000_near [OF a]
  have ak: "real a + 1 \<le> real k" using assms(1) by linarith
  show ?thesis
  proof (cases "k = 10000")
    case True
    have "real a \<le> 9999" using a by linarith
    then have "real a / 10000 \<le> 9999 / 10000" by simp
    with ea have "double_div a 10000 < 1" by linarith
    then show ?thesis using True by (simp add: double_div_10000_10000)
  next
    case False
    then have "k < 10000" using assms(2) by simp
    note ek = double_div_10000_near [OF this]
    have "real a / 10000 + 1 / 10000 \<le> real k / 10000" using ak by simp
    with ea ek show ?thesis by linarith
  qed
qed

lemma double_div_10000_less_iff:
  assumes "a \<le> 10000" and "k \<le> 10000"
  shows "(double_div a 10000 < double_div k 10000) = (a < k)"
proof (cases "a < k")
  case True
  then show ?thesis using double_div_10000_mono [OF True assms(2)] by simp
next
  case False
  show ?thesis
  proof (cases "a = k")
    case True
    then show ?thesis by simp
  next
    case ne: False
    with False have "k < a" by simp
    from double_div_10000_mono [OF this assms(1)] False show ?thesis by simp
  qed
qed

text \<open>
  C1. On a session manager that has not decided yet, \<open>shouldTrackSession\<close> returns
  \<open>(hash mod 10000) / 10000 < sampleRate\<close>, where

  \<^item> the quotient is the one the code computes, the double nearest to the exact quotient,
    which it misses by at most \<open>2^-54\<close>; at a rate that is itself the double \<open>k / 10000\<close>
    (what writing \<open>0.2\<close> or \<open>0.1005\<close> gives) the decision is exactly \<open>hash mod 10000 < k\<close>;

  \<^item> the hash is the 32-bit rolling hash of the session id: the sum of
    \<open>c i * 31^(n - 1 - i)\<close> over its \<open>n\<close> code units \<open>c 0, ..., c (n - 1)\<close>, wrapped to a
    signed 32-bit integer, in absolute value, hence between 0 and \<open>2^31\<close>.

  The decision depends on the session id and the rate only: another manager that has not
  decided yet and holds the same session id, as after a reload, decides the same at the same
  rate. The call stores the decision and keeps the session id; every later call, with
  whatever rate, returns the stored decision and changes nothing, so all calls within the
  session agree with the first.
\<close>

theorem shouldTrackSession_memoized:
  assumes "samplingDecision sm = None"
  shows "fst (shouldTrackSession r sm)
           = (double_div (nat (hashString (sessionId sm) mod 10000)) 10000 < r)
     \<and> (samplingDecision sm' = None \<and> sessionId sm' = sessionId sm \<longrightarrow>
           fst (shouldTrackSession r sm') = fst (shouldTrackSession r sm))
     \<and> \<bar>double_div (nat (hashString (sessionId sm) mod 10000)) 10000
          - real_of_int (hashString (sessionId sm) mod 10000) / 10000\<bar> \<le> 1 / 2 ^ 54
     \<and> (\<forall>k\<le>10000. fst (shouldTrackSession (double_div k 10000) sm)
                        = (hashString (sessionId sm) mod 10000 < int k))
     \<and> hashString (sessionId sm)
           = \<bar>to_int32 (\<Sum>i<length (sessionId sm).
                 int (sessionId sm ! i) * 31 ^ (length (sessionId sm) - 1 - i))\<bar>
     \<and> 0 \<le> hashString (sessionId sm) \<and> hashString (sessionId sm) \<le> 2 ^ 31
     \<and> sessionId (snd (shouldTrackSession r sm)) = sessionId sm
     \<and> shouldTrackSession r' (snd (shouldTrackSession r sm))
           = (fst (shouldTrackSession r sm), snd (shouldTrackSession r sm))"
proof -
  define h where "h = nat (hashString (sessionId sm) mod 10000)"
  have h: "h < 10000" and hi: "int h = hashString (sessionId sm) mod 10000"
    by (simp_all add: h_def nat_less_iff)
  have dec: "fst (shouldTrackSession q sm) = (double_div h 10000 < q)" for q
    using assms by (simp add: shouldTrackSession_def makeSamplingDecision_def Let_def h_def)
  have 1: "fst (shouldTrackSession r sm)
             = (double_div (nat (hashString (sessionId sm) mod 10000)) 10000 < r)"
    using dec [of r] by (simp add: h_def)
  have same: "samplingDecision sm' = None \<and> sessionId sm' = sessionId sm \<longrightarrow>
           fst (shouldTrackSession r sm') = fst (shouldTrackSession r sm)"
    using assms by (simp add: shouldTrackSession_def makeSamplingDecision_def Let_def)
  have "\<bar>double_div h 10000 - real h / real 10000\<bar> \<le> 1 / 2 ^ 54"
    using h by (rule double_div_error)
  moreover have "real h = real_of_int (hashString (sessionId sm) mod 10000)"
    using hi by (metis of_int_of_nat_eq)
  ultimately have 2: "\<bar>double_div (nat (hashString (sessionId sm) mod 10000)) 10000
          - real_of_int (hashString (sessionId sm) mod 10000) / 10000\<bar> \<le> 1 / 2 ^ 54"
    by (simp add: h_def)
  have 3: "\<forall>k\<le>10000. fst (shouldTrackSession (double_div k 10000) sm)
                        = (hashString (sessionId sm) mod 10000 < int k)"
  proof (intro allI impI)
    fix k :: nat
    assume k: "k \<le> 10000"
    have "h \<le> 10000" using h by simp
    from double_div_10000_less_iff [OF this k]
    have "fst (shouldTrackSession (double_div k 10000) sm) = (h < k)"
      by (simp add: dec)
    also have "\<dots> = (int h < int k)" by simp
    finally show "fst (shouldTrackSession (double_div k 10000) sm)
                        = (hashString (sessionId sm) mod 10000 < int k)"
      by (simp only: hi)
  qed
  have 4: "hashString (sessionId sm)
           = \<bar>to_int32 (\<Sum>i<length (sessionId sm).
                 int (sessionId sm ! i) * 31 ^ (length (sessionId sm) - 1 - i))\<bar>"
    by (rule hashString_closed)
  have 5: "0 \<le> hashString (sessionId sm) \<and> hashString (sessionId sm) \<le> 2 ^ 31"
    by (rule hashString_range)
  have 6: "sessionId (snd (shouldTrackSession r sm)) = sessionId sm"
    using assms by (simp add: shouldTrackSession_def Let_def)
  have 7: "shouldTrackSession r' (snd (shouldTrackSession r sm))
           = (fst (shouldTrackSession r sm), snd (shouldTrackSession r sm))"
    using assms by (simp add: shouldTrackSession_def Let_def)
  from 1 same 2 3 4 5 6 7 show ?thesis by blast
qed

lemma hashString_qjy: "hashString [113, 106, 121] = 112000"
  by (simp add: hashString_def hash_loop_def hash_step_def to_int32_def)

lemma mant_shift_2000: "mant_shift 2000 10000 0 = 55"
  by (simp add: mant_shift.simps)

lemma double_div_2000: "double_div 2000 10000 = 3602879701896397 / 2 ^ 54"
  by (simp add: double_div_def mant_shift_2000 round_half_even_def Let_def)

text \<open>
  The session id \<open>qjy\<close> hashes to 112000, so the quotient is the double \<open>0.2\<close>, which is
  \<open>3602879701896397 / 2^54\<close>, a little above one fifth. At the rate \<open>0.2\<close> the session is
  therefore rejected, as \<open>2000 < 2000\<close> says, a later call with the rate 1 still rejects
  it, and so does a fresh manager of another site with the same session id; at the rate
  \<open>0.25\<close> a fresh manager admits it.
\<close>

theorem shouldTrackSession_memoized_witness:
  "hashString [113, 106, 121] = 112000
   \<and> fst (shouldTrackSession (3602879701896397 / 2 ^ 54)
          \<lparr>sm_siteId = [115], sessionId = [113, 106, 121], samplingDecision = None\<rparr>) = False
   \<and> fst (shouldTrackSession (double_div 2000 10000)
          \<lparr>sm_siteId = [115], sessionId = [113, 106, 121], samplingDecision = None\<rparr>) = False
   \<and> fst (shouldTrackSession 1
          (snd (shouldTrackSession (3602879701896397 / 2 ^ 54)
             \<lparr>sm_siteId = [115], sessionId = [113, 106, 121], samplingDecision = None\<rparr>)))
       = False
   \<and> fst (shouldTrackSession (3602879701896397 / 2 ^ 54)
          \<lparr>sm_siteId = [116], sessionId = [113, 106, 121], samplingDecision = None\<rparr>) = False
   \<and> fst (shouldTrackSession (1 / 4)
          \<lparr>sm_siteId = [115], sessionId = [113, 106, 121], samplingDecision = None\<rparr>) = True"
  using shouldTrackSession_memoized
    [where sm = "\<lparr>sm_siteId = [115], sessionId = [113, 106, 121], samplingDecision = None\<rparr>"
       and r = "3602879701896397 / 2 ^ 54" and r' = 1
       and sm' = "\<lparr>sm_siteId = [116], sessionId = [113, 106, 121], samplingDecision = None\<rparr>"]
    shouldTrackSession_memoized
    [where sm = "\<lparr>sm_siteId = [115], sessionId = [113, 106, 121], samplingDecision = None\<rparr>"
       and r = "1 / 4" and r' = 1
       and sm' = "\<lparr>sm_siteId = [116], sessionId = [113, 106, 121], samplingDecision = None\<rparr>"]
  by (simp add: hashString_qjy double_div_2000)

lemma to_base36_nonempty: "to_base36 n \<noteq> []"
  by (subst to_base36.simps) simp

lemma digit36_inj: "a < 36 \<Longrightarrow> b < 36 \<Longrightarrow> digit36 a = digit36 b \<Longrightarrow> a = b"
  by (auto simp: digit36_def split: if_splits)

lemma to_base36_inj: "to_base36 n = to_base36 m \<Longrightarrow> n = m"
proof (induction n arbitrary: m rule: to_base36.induct)
  case (1 n)
  show ?case
  proof (cases "n < 36")
    case True
    with "1.prems" have m: "m < 36"
      using to_base36_nonempty [of "m div 36"]
      by (subst (asm) to_base36.simps, subst (asm) (2) to_base36.simps)
         (auto split: if_splits)
    with True "1.prems" show ?thesis
      by (subst (asm) to_base36.simps, subst (asm) (2) to_base36.simps)
         (auto dest: digit36_inj)
  next
    case False
    with "1.prems" have m: "\<not> m < 36"
      using to_base36_nonempty [of "n div 36"]
      by (subst (asm) to_base36.simps, subst (asm) (2) to_base36.simps)
         (auto split: if_splits)
    with False "1.prems"
    have "to_base36 (n div 36) = to_base36 (m div 36)"
      and "digit36 (n mod 36) = digit36 (m mod 36)"
      by (subst (asm) to_base36.simps, subst (asm) (2) to_base36.simps, simp)+
    then have "n div 36 = m div 36" and "n mod 36 = m mod 36"
      using "1.IH" [OF False, of "m div 36"] digit36_inj [of "n mod 36" "m mod 36"]
      by simp_all
    then show ?thesis by (metis div_mult_mod_eq)
  qed
qed

text \<open>
  C9, as stated, fails: for the session id \<open>s\<close> the site ids \<open>Aa\<close> and \<open>BB\<close> differ and
  have the same anonymized id (\<open>65 * 31 + 97 = 66 * 31 + 66\<close>).
\<close>

theorem hashSessionId_collision_counterexample:
  "[65, 97] \<noteq> [66, 66 :: nat]
   \<and> hashSessionId [115] [65, 97] = hashSessionId [115] [66, 66]"
  by (simp add: hashSessionId_def hash_loop_def hash_step_def to_int32_def)

text \<open>
  C9, amended. The anonymized id is a function of the pair (session id, site id); for a
  fixed session id two site ids give different outputs exactly when the absolute values
  of the 32-bit hashes of \<open>sessionId:siteId\<close> differ. The session manager's
  \<open>getAnonymizedSessionId\<close> is the same function of its own session id and site id.
\<close>

theorem hashSessionId_differs_iff:
  "(hashSessionId sid a \<noteq> hashSessionId sid b)
     = (\<bar>hash_loop (sid @ [58] @ a)\<bar> \<noteq> \<bar>hash_loop (sid @ [58] @ b)\<bar>)
   \<and> getAnonymizedSessionId \<lparr>sm_siteId = a, sessionId = sid, samplingDecision = d\<rparr>
       = hashSessionId sid a"
proof -
  have "hashSessionId sid a = hashSessionId sid b
        \<longleftrightarrow> \<bar>hash_loop (sid @ [58] @ a)\<bar> = \<bar>hash_loop (sid @ [58] @ b)\<bar>"
    unfolding hashSessionId_def
    using to_base36_inj
      [of "nat \<bar>hash_loop (sid @ [58] @ a)\<bar>" "nat \<bar>hash_loop (sid @ [58] @ b)\<bar>"]
    by (auto simp: eq_nat_nat_iff)
  then show ?thesis
    by (simp add: getAnonymizedSessionId_def hashSessionId_def hashString_def)
qed

theorem hashSessionId_differs_iff_witness:
  "hashSessionId [115] [49] \<noteq> hashSessionId [115] [50]"
  using hashSessionId_differs_iff [of "[115]" "[49]" "[50]" None]
  by (simp add: hash_loop_def hash_step_def to_int32_def)

section \<open>Properties of the retry policy\<close>

lemma handleSendError_terminal:
  "\<not> (isRetryableError err \<and> int (retryCount q) < t_maxRetries t) \<Longrightarrow>
   handleSendError env t q err = t\<lparr>emitted := emitted t @ [Error err (events q)]\<rparr>"
  by (subst handleSendError.simps) auto

lemma handleSendError_retry_fails:
  assumes "isRetryableError err" and "int (retryCount q) < t_maxRetries t"
      and "env (attempts t) = Some err'"
  shows "handleSendError env t q err =
         handleSendError env
           (t\<lparr>t_retryCount := Suc (t_retryCount t),
              timers := timers t @ [backoff_delay (Suc (retryCount q))],
              attempts := Suc (attempts t)\<rparr>)
           (q\<lparr>retryCount := Suc (retryCount q)\<rparr>) err'"
  using assms
  by (subst handleSendError.simps, subst retryWithBackoff.simps)
     (simp add: Let_def backoff_delay_def)

lemma handleSendError_retry_succeeds:
  assumes "isRetryableError err" and "int (retryCount q) < t_maxRetries t"
      and "env (attempts t) = None"
  shows "handleSendError env t q err =
           t\<lparr>t_retryCount := 0,
              timers := timers t @ [backoff_delay (Suc (retryCount q))],
              attempts := Suc (attempts t),
              emitted := emitted t @ [Success (length (events q))]\<rparr>"
  using assms
  by (subst handleSendError.simps, subst retryWithBackoff.simps)
     (simp add: Let_def backoff_delay_def)

lemma handleSendError_exhaust:
  assumes env: "\<And>n. \<exists>e. env n = Some e \<and> isRetryableError e"
  shows "isRetryableError err \<Longrightarrow> int (retryCount q) + int k = t_maxRetries t \<Longrightarrow>
     attempts (handleSendError env t q err) = attempts t + k
     \<and> timers (handleSendError env t q err)
         = timers t @ map backoff_delay [Suc (retryCount q) ..< Suc (retryCount q + k)]
     \<and> (\<exists>e. emitted (handleSendError env t q err) = emitted t @ [Error e (events q)])"
proof (induction k arbitrary: t q err)
  case 0
  then have "\<not> (isRetryableError err \<and> int (retryCount q) < t_maxRetries t)" by simp
  then show ?case by (simp add: handleSendError_terminal)
next
  case (Suc k)
  from env obtain e' where e': "env (attempts t) = Some e'" "isRetryableError e'" by blast
  let ?t = "t\<lparr>t_retryCount := Suc (t_retryCount t),
              timers := timers t @ [backoff_delay (Suc (retryCount q))],
              attempts := Suc (attempts t)\<rparr>"
  let ?q = "q\<lparr>retryCount := Suc (retryCount q)\<rparr>"
  from Suc.prems have lt: "int (retryCount q) < t_maxRetries t" by simp
  have step: "handleSendError env t q err = handleSendError env ?t ?q e'"
    using Suc.prems(1) lt e'(1) by (rule handleSendError_retry_fails)
  have "int (retryCount ?q) + int k = t_maxRetries ?t" using Suc.prems by simp
  from Suc.IH [OF e'(2) this]
  have ih: "attempts (handleSendError env ?t ?q e') = attempts ?t + k"
       "timers (handleSendError env ?t ?q e')
          = timers ?t @ map backoff_delay [Suc (retryCount ?q) ..< Suc (retryCount ?q + k)]"
       "\<exists>e. emitted (handleSendError env ?t ?q e') = emitted ?t @ [Error e (events ?q)]"
    by blast+
  have upt: "[Suc (retryCount q) ..< Suc (retryCount q + Suc k)]
             = Suc (retryCount q) # [Suc (retryCount ?q) ..< Suc (retryCount ?q + k)]"
    by (simp add: upt_conv_Cons)
  show ?case
    unfolding step upt using ih by simp
qed

lemma handleSendError_timers_extend:
  "nat (t_maxRetries t - int (retryCount q)) = k \<Longrightarrow>
   \<exists>ds. timers (handleSendError env t q err) = timers t @ ds"
proof (induction k arbitrary: t q err rule: less_induct)
  case (less k)
  show ?case
  proof (cases "isRetryableError err \<and> int (retryCount q) < t_maxRetries t")
    case False
    then show ?thesis by (simp add: handleSendError_terminal)
  next
    case True
    show ?thesis
    proof (cases "env (attempts t)")
      case None
      with True show ?thesis by (simp add: handleSendError_retry_succeeds)
    next
      case (Some e')
      let ?t = "t\<lparr>t_retryCount := Suc (t_retryCount t),
              timers := timers t @ [backoff_delay (Suc (retryCount q))],
              attempts := Suc (attempts t)\<rparr>"
      let ?q = "q\<lparr>retryCount := Suc (retryCount q)\<rparr>"
      have step: "handleSendError env t q err = handleSendError env ?t ?q e'"
        using True Some by (intro handleSendError_retry_fails) auto
      have "nat (t_maxRetries ?t - int (retryCount ?q)) < k"
        using True less.prems by auto
      from less.IH [OF this refl, of e']
      obtain ds where "timers (handleSendError env ?t ?q e') = timers ?t @ ds" by blast
      then show ?thesis unfolding step by simp
    qed
  qed
qed

lemma handleSendError_retry_timer:
  assumes "isRetryableError err" and "int (retryCount q) < t_maxRetries t"
  shows "\<exists>ds. timers (handleSendError env t q err)
            = timers t @ backoff_delay (Suc (retryCount q)) # ds"
proof (cases "env (attempts t)")
  case None
  with assms show ?thesis by (simp add: handleSendError_retry_succeeds)
next
  case (Some e')
  let ?t = "t\<lparr>t_retryCount := Suc (t_retryCount t),
          timers := timers t @ [backoff_delay (Suc (retryCount q))],
          attempts := Suc (attempts t)\<rparr>"
  let ?q = "q\<lparr>retryCount := Suc (retryCount q)\<rparr>"
  have step: "handleSendError env t q err = handleSendError env ?t ?q e'"
    using assms Some by (intro handleSendError_retry_fails) auto
  from handleSendError_timers_extend [OF refl, of env ?t ?q e']
  obtain ds where "timers (handleSendError env ?t ?q e') = timers ?t @ ds" by blast
  then show ?thesis unfolding step by simp
qed

text \<open>
  C4, amended. \<open>handleSendError\<close> schedules a retry (sets a backoff timer) exactly when
  \<open>isRetryableError\<close> holds and the batch's retry count is below \<open>maxRetries\<close>.
  \<open>isRetryableError\<close> holds exactly when the message contains \<open>Network error\<close> or
  \<open>timeout\<close>, or carries no HTTP status or the status 0, or the status is at least 500
  or is 429. A batch whose first attempt fails with an error that is not retryable (an HTTP
  400, or any 4xx other than 429, with neither marker in its message) makes exactly one
  attempt, emits one \<open>error\<close> notification and sets no timer.
\<close>

theorem handleSendError_retry_iff:
  "(timers (handleSendError env t q err) \<noteq> timers t)
      = (isRetryableError err \<and> int (retryCount q) < t_maxRetries t)
   \<and> isRetryableError err
      = (message_includes err (ascii ''Network error'')
         \<or> message_includes err (ascii ''timeout'')
         \<or> (case extractHttpStatus err of
               None \<Rightarrow> True
             | Some status \<Rightarrow> status = 0 \<or> status \<ge> 500 \<or> status = 429))
   \<and> (env (attempts t) = Some err \<and> \<not> isRetryableError err \<longrightarrow>
        sendBatch env t evs
          = t\<lparr>attempts := Suc (attempts t), emitted := emitted t @ [Error err evs]\<rparr>)"
proof -
  have a: "(timers (handleSendError env t q err) \<noteq> timers t)
      = (isRetryableError err \<and> int (retryCount q) < t_maxRetries t)"
  proof (cases "isRetryableError err \<and> int (retryCount q) < t_maxRetries t")
    case True
    then obtain ds where "timers (handleSendError env t q err)
            = timers t @ backoff_delay (Suc (retryCount q)) # ds"
      using handleSendError_retry_timer by blast
    with True show ?thesis by simp
  next
    case False
    then show ?thesis by (simp add: handleSendError_terminal)
  qed
  have b: "isRetryableError err
      = (message_includes err (ascii ''Network error'')
         \<or> message_includes err (ascii ''timeout'')
         \<or> (case extractHttpStatus err of
               None \<Rightarrow> True
             | Some status \<Rightarrow> status = 0 \<or> status \<ge> 500 \<or> status = 429))"
    by (auto simp: isRetryableError_def split: option.splits)
  have c: "env (attempts t) = Some err \<and> \<not> isRetryableError err \<longrightarrow>
        sendBatch env t evs
          = t\<lparr>attempts := Suc (attempts t), emitted := emitted t @ [Error err evs]\<rparr>"
    by (simp add: sendBatch_def handleSendError_terminal)
  from a b c show ?thesis by blast
qed

lemmas retry_eval = isRetryableError_def message_includes_def ascii_def extractHttpStatus_def
  http_status_here_def is_digit_def parseInt_def

theorem handleSendError_retry_iff_witness:
  "sendBatch (always_fails \<lparr>message = Some (ascii ''HTTP 400: Bad Request'')\<rparr>)
      \<lparr>t_maxRetries = 3, t_retryCount = 0, emitted = [], timers = [], attempts = 0\<rparr> [7 :: nat]
   = \<lparr>t_maxRetries = 3, t_retryCount = 0,
       emitted = [Error \<lparr>message = Some (ascii ''HTTP 400: Bad Request'')\<rparr> [7]],
       timers = [], attempts = 1\<rparr>"
  using handleSendError_retry_iff
    [of "always_fails \<lparr>message = Some (ascii ''HTTP 400: Bad Request'')\<rparr>"
        "\<lparr>t_maxRetries = 3, t_retryCount = 0, emitted = [], timers = [], attempts = 0\<rparr>"
        "\<lparr>events = [7 :: nat], retryCount = 0\<rparr>"
        "\<lparr>message = Some (ascii ''HTTP 400: Bad Request'')\<rparr>" "[7 :: nat]"]
  by (simp add: always_fails_def retry_eval)

text \<open>
  C4, as stated, fails: the error \<open>No valid events to send\<close>, which \<open>_attemptSend\<close>
  throws itself, is in none of the four retryable classes, and \<open>handleSendError\<close>
  schedules a retry for it (after 1000 ms).
\<close>

theorem retry_outside_class_counterexample:
  "\<not> spec_retryable_class \<lparr>message = Some (ascii ''No valid events to send'')\<rparr>
   \<and> timers (handleSendError never_fails
        \<lparr>t_maxRetries = 3, t_retryCount = 0, emitted = [], timers = [], attempts = 1\<rparr>
        \<lparr>events = [7 :: nat], retryCount = 0\<rparr>
        \<lparr>message = Some (ascii ''No valid events to send'')\<rparr>) = [1000]"
  by (simp add: spec_retryable_class_def retry_eval never_fails_def backoff_delay_def
      handleSendError_retry_succeeds)

text \<open>
  C5. When every attempt fails with a retryable error and \<open>maxRetries \<ge> 0\<close>,
  \<open>sendBatch\<close> makes exactly \<open>maxRetries + 1\<close> attempts, waits
  \<open>min(1000 * 2^(k-1), 30000)\<close> ms before the \<open>k\<close>-th retry for
  \<open>k = 1 .. maxRetries\<close>, and then emits exactly one notification, an \<open>error\<close>
  carrying the batch's events.
\<close>

theorem sendBatch_exhausts_retries:
  assumes "\<And>n. \<exists>e. env n = Some e \<and> isRetryableError e"
      and "0 \<le> t_maxRetries t"
  shows "attempts (sendBatch env t evs) = attempts t + nat (t_maxRetries t) + 1
     \<and> timers (sendBatch env t evs)
         = timers t @ map (\<lambda>k. min (1000 * 2 ^ (k - 1)) 30000) [1 ..< Suc (nat (t_maxRetries t))]
     \<and> (\<exists>e. emitted (sendBatch env t evs) = emitted t @ [Error e evs])"
proof -
  from assms(1) obtain e where e: "env (attempts t) = Some e" "isRetryableError e" by blast
  let ?t = "t\<lparr>attempts := Suc (attempts t)\<rparr>"
  let ?q = "\<lparr>events = evs, retryCount = 0\<rparr>"
  have sb: "sendBatch env t evs = handleSendError env ?t ?q e"
    using e by (simp add: sendBatch_def)
  have "int (retryCount ?q) + int (nat (t_maxRetries t)) = t_maxRetries ?t"
    using assms(2) by simp
  from handleSendError_exhaust [of env e ?q "nat (t_maxRetries t)" ?t, OF assms(1) e(2) this]
  show ?thesis unfolding sb
    by (simp add: backoff_delay_def [abs_def])
qed

theorem sendBatch_exhausts_retries_witness:
  "attempts (sendBatch (always_fails \<lparr>message = Some (ascii ''HTTP 500: '')\<rparr>)
      \<lparr>t_maxRetries = 3, t_retryCount = 0, emitted = [], timers = [], attempts = 0\<rparr> [7 :: nat]) = 4
   \<and> timers (sendBatch (always_fails \<lparr>message = Some (ascii ''HTTP 500: '')\<rparr>)
      \<lparr>t_maxRetries = 3, t_retryCount = 0, emitted = [], timers = [], attempts = 0\<rparr> [7 :: nat])
     = [1000, 2000, 4000]"
  using sendBatch_exhausts_retries
    [of "always_fails \<lparr>message = Some (ascii ''HTTP 500: '')\<rparr>"
        "\<lparr>t_maxRetries = 3, t_retryCount = 0, emitted = [], timers = [], attempts = 0\<rparr>"
        "[7 :: nat]"]
  by (simp add: always_fails_def retry_eval upt_rec)

section \<open>Properties of the matcher\<close>

lemma le_length_takeWhile:
  "k \<le> length (takeWhile P xs) \<longleftrightarrow> k \<le> length xs \<and> (\<forall>j<k. P (xs ! j))"
proof (induction xs arbitrary: k)
  case Nil
  show ?case by auto
next
  case (Cons x xs)
  show ?case
  proof (cases k)
    case 0
    then show ?thesis by simp
  next
    case (Suc k')
    have "(\<forall>j<Suc k'. P ((x # xs) ! j)) \<longleftrightarrow> P x \<and> (\<forall>j<k'. P (xs ! j))"
      by (auto simp: less_Suc_eq_0_disj)
    then show ?thesis
      using Cons.IH [of k'] Suc by simp
  qed
qed

lemma in_ends_Plus_aux:
  "e \<in> set (ends (Plus c) s i) \<longleftrightarrow> i < e \<and> e - i \<le> length (takeWhile (in_class c) (drop i s))"
proof
  assume "e \<in> set (ends (Plus c) s i)"
  then obtain k where "e = i + k" "1 \<le> k" "k < Suc (length (takeWhile (in_class c) (drop i s)))"
    by auto
  then show "i < e \<and> e - i \<le> length (takeWhile (in_class c) (drop i s))" by simp
next
  assume a: "i < e \<and> e - i \<le> length (takeWhile (in_class c) (drop i s))"
  then have "e - i \<in> set [1 ..< Suc (length (takeWhile (in_class c) (drop i s)))]" by auto
  then have "i + (e - i) \<in> set (ends (Plus c) s i)" by (simp only: ends.simps set_map set_rev image_eqI)
  with a show "e \<in> set (ends (Plus c) s i)" by simp
qed

lemma in_ends_Plus:
  "e \<in> set (ends (Plus c) s i)
     \<longleftrightarrow> i < e \<and> e \<le> length s \<and> (\<forall>j. i \<le> j \<and> j < e \<longrightarrow> in_class c (s ! j))"
proof (cases "i < e \<and> e \<le> length s")
  case True
  have "(\<forall>j<e - i. in_class c (drop i s ! j)) \<longleftrightarrow> (\<forall>j. i \<le> j \<and> j < e \<longrightarrow> in_class c (s ! j))"
  proof
    assume a: "\<forall>j<e - i. in_class c (drop i s ! j)"
    show "\<forall>j. i \<le> j \<and> j < e \<longrightarrow> in_class c (s ! j)"
    proof (intro allI impI)
      fix j assume j: "i \<le> j \<and> j < e"
      then have "j - i < e - i" by auto
      with a have "in_class c (drop i s ! (j - i))" by blast
      moreover have "drop i s ! (j - i) = s ! j" using j True by simp
      ultimately show "in_class c (s ! j)" by simp
    qed
  next
    assume a: "\<forall>j. i \<le> j \<and> j < e \<longrightarrow> in_class c (s ! j)"
    show "\<forall>j<e - i. in_class c (drop i s ! j)"
    proof (intro allI impI)
      fix j assume "j < e - i"
      then have "i \<le> i + j \<and> i + j < e" by auto
      with a have "in_class c (s ! (i + j))" by blast
      then show "in_class c (drop i s ! j)" using True by simp
    qed
  qed
  moreover have "e - i \<le> length (drop i s)" using True by auto
  ultimately show ?thesis using True
    unfolding in_ends_Plus_aux le_length_takeWhile by blast
next
  case False
  have "e - i \<le> length (takeWhile (in_class c) (drop i s)) \<Longrightarrow> e - i \<le> length s - i"
    using length_takeWhile_le [of "in_class c" "drop i s"] by simp
  with False show ?thesis
    unfolding in_ends_Plus_aux by auto
qed





lemma in_ends_Seq:
  "e \<in> set (ends (Seq a b) s i) \<longleftrightarrow> (\<exists>k \<in> set (ends a s i). e \<in> set (ends b s k))"
  by auto

lemma in_iter_Suc:
  "e \<in> set (iter (Suc n) f i) \<longleftrightarrow> (\<exists>k \<in> set (f i). e \<in> set (iter n f k))"
  by auto

lemma iter_min_len:
  assumes "\<And>i e. e \<in> set (f i) \<Longrightarrow> i + m \<le> e"
  shows "e \<in> set (iter n f i) \<Longrightarrow> i + n * m \<le> e"
proof (induction n arbitrary: i)
  case 0
  then show ?case by simp
next
  case (Suc n)
  then obtain k where k: "k \<in> set (f i)" "e \<in> set (iter n f k)"
    unfolding in_iter_Suc by blast
  from assms [OF k(1)] Suc.IH [OF k(2)] show ?case by simp
qed

lemma ends_min_len: "e \<in> set (ends r s i) \<Longrightarrow> i + min_len r \<le> e"
proof (induction r arbitrary: i e)
  case WordB
  then show ?case by (simp split: if_splits)
next
  case (One c)
  then show ?case by (simp split: if_splits)
next
  case (Plus c)
  then show ?case unfolding in_ends_Plus by simp
next
  case (Seq a b)
  then obtain k where "k \<in> set (ends a s i)" "e \<in> set (ends b s k)"
    unfolding in_ends_Seq by blast
  with Seq.IH [of k i] Seq.IH(2) [of e k] show ?case by simp
next
  case (Opt r)
  then have "e = i \<or> e \<in> set (ends r s i)" by auto
  then show ?case
  proof
    assume "e = i"
    then show ?thesis by simp
  next
    assume "e \<in> set (ends r s i)"
    from Opt.IH [OF this] show ?thesis by simp
  qed
next
  case (Rep n r)
  then have "e \<in> set (iter n (ends r s) i)" by simp
  then show ?case using iter_min_len [of "ends r s" "min_len r" e n i] Rep.IH by simp
qed

lemma ends_mono: "e \<in> set (ends r s i) \<Longrightarrow> i \<le> e"
  using ends_min_len [of e r s i] by simp

lemma iter_le_length:
  assumes "\<And>i e. e \<in> set (f i) \<Longrightarrow> i \<le> L \<Longrightarrow> e \<le> L"
  shows "e \<in> set (iter n f i) \<Longrightarrow> i \<le> L \<Longrightarrow> e \<le> (L::nat)"
proof (induction n arbitrary: i)
  case 0
  then show ?case by simp
next
  case (Suc n)
  then obtain k where k: "k \<in> set (f i)" "e \<in> set (iter n f k)"
    unfolding in_iter_Suc by blast
  from assms [OF k(1) Suc.prems(2)] Suc.IH [OF k(2)] show ?case by simp
qed

lemma ends_le_length: "e \<in> set (ends r s i) \<Longrightarrow> i \<le> length s \<Longrightarrow> e \<le> length s"
proof (induction r arbitrary: i e)
  case WordB
  then show ?case by (simp split: if_splits)
next
  case (One c)
  then show ?case by (simp split: if_splits)
next
  case (Plus c)
  then show ?case unfolding in_ends_Plus by simp
next
  case (Seq a b)
  then obtain k where "k \<in> set (ends a s i)" "e \<in> set (ends b s k)"
    unfolding in_ends_Seq by blast
  with Seq.IH(1) [of k i] Seq.IH(2) [of e k] Seq.prems(2) show ?case by simp
next
  case (Opt r)
  then show ?case by auto
next
  case (Rep n r)
  then have "e \<in> set (iter n (ends r s) i)" by simp
  then show ?case using iter_le_length [of "ends r s" "length s" e n i] Rep.IH Rep.prems(2) by simp
qed

lemma iter_avoids:
  assumes "\<And>i e. e \<in> set (f i) \<Longrightarrow> i \<le> e \<and> (\<forall>j. i \<le> j \<and> j < e \<longrightarrow> s ! j \<noteq> m)"
  shows "e \<in> set (iter n f i) \<Longrightarrow> i \<le> e \<and> (\<forall>j. i \<le> j \<and> j < e \<longrightarrow> s ! j \<noteq> m)"
proof (induction n arbitrary: i)
  case 0
  then show ?case by auto
next
  case (Suc n)
  then obtain k where k: "k \<in> set (f i)" "e \<in> set (iter n f k)"
    unfolding in_iter_Suc by blast
  from assms [OF k(1)] Suc.IH [OF k(2)] show ?case
    by (metis le_trans not_le_imp_less)
qed

lemma ends_avoids:
  "avoids m r \<Longrightarrow> e \<in> set (ends r s i) \<Longrightarrow>
   i \<le> e \<and> (\<forall>j. i \<le> j \<and> j < e \<longrightarrow> s ! j \<noteq> m)"
proof (induction r arbitrary: i e)
  case WordB
  then show ?case by (auto split: if_splits)
next
  case (One c)
  then show ?case by (auto split: if_splits simp: less_Suc_eq_le)
next
  case (Plus c)
  then show ?case unfolding in_ends_Plus by auto
next
  case (Seq a b)
  then obtain k where k: "k \<in> set (ends a s i)" "e \<in> set (ends b s k)"
    unfolding in_ends_Seq by blast
  from Seq.IH(1) [OF _ k(1)] Seq.IH(2) [OF _ k(2)] Seq.prems(1) show ?case
    by (metis avoids.simps(4) le_trans not_le_imp_less)
next
  case (Opt r)
  then show ?case by auto
next
  case (Rep n r)
  then have "e \<in> set (iter n (ends r s) i)" by simp
  then show ?case using iter_avoids [of "ends r s" s m e n i] Rep.IH Rep.prems(1) by simp
qed

lemma iter_local:
  assumes step: "\<And>i e. e \<in> set (f i) \<Longrightarrow> i \<le> e"
      and loc: "\<And>i e. e \<in> set (f i) \<Longrightarrow> lo \<le> i \<Longrightarrow> e \<le> hi \<Longrightarrow> e \<in> set (g i)"
      and mono: "\<And>n i e. e \<in> set (iter n f i) \<Longrightarrow> i \<le> e"
  shows "e \<in> set (iter n f i) \<Longrightarrow> lo \<le> i \<Longrightarrow> e \<le> hi \<Longrightarrow> e \<in> set (iter n g i)"
proof (induction n arbitrary: i)
  case 0
  then show ?case by simp
next
  case (Suc n)
  then obtain k where k: "k \<in> set (f i)" "e \<in> set (iter n f k)"
    unfolding in_iter_Suc by blast
  have ik: "i \<le> k" using step [OF k(1)] .
  have ke: "k \<le> e" using mono [OF k(2)] .
  have "k \<in> set (g i)" using loc [OF k(1) Suc.prems(2)] ke Suc.prems(3) by simp
  moreover have "e \<in> set (iter n g k)" using Suc.IH [OF k(2)] ik Suc.prems by simp
  ultimately show ?case unfolding in_iter_Suc by blast
qed

lemma iter_mono:
  assumes "\<And>i e. e \<in> set (f i) \<Longrightarrow> i \<le> e"
  shows "e \<in> set (iter n f i) \<Longrightarrow> i \<le> e"
  using iter_min_len [of f 0 e n i] assms by simp

lemma ends_local:
  assumes len: "length s = length t"
  shows "e \<in> set (ends r t i) \<Longrightarrow>
     (\<forall>j. lo \<le> j \<and> j < hi \<longrightarrow> s ! j = t ! j) \<Longrightarrow>
     (\<forall>q. lo \<le> q \<and> q \<le> hi \<and> is_boundary t q \<longrightarrow> is_boundary s q) \<Longrightarrow>
     lo \<le> i \<Longrightarrow> e \<le> hi \<Longrightarrow> e \<in> set (ends r s i)"
proof (induction r arbitrary: i e)
  case WordB
  then show ?case by (auto split: if_splits)
next
  case (One c)
  then show ?case using len by (auto split: if_splits)
next
  case (Plus c)
  then show ?case unfolding in_ends_Plus using len by auto
next
  case (Seq a b)
  then obtain k where k: "k \<in> set (ends a t i)" "e \<in> set (ends b t k)"
    unfolding in_ends_Seq by blast
  have ik: "i \<le> k" using ends_mono [OF k(1)] .
  have ke: "k \<le> e" using ends_mono [OF k(2)] .
  have "k \<in> set (ends a s i)"
    using Seq.IH(1) [OF k(1) Seq.prems(2,3,4)] ke Seq.prems(5) by simp
  moreover have "e \<in> set (ends b s k)"
    using Seq.IH(2) [OF k(2) Seq.prems(2,3)] ik Seq.prems(4,5) by simp
  ultimately show ?case unfolding in_ends_Seq by blast
next
  case (Opt r)
  then have "e = i \<or> e \<in> set (ends r t i)" by auto
  then show ?case
  proof
    assume "e = i"
    then show ?thesis by simp
  next
    assume "e \<in> set (ends r t i)"
    from Opt.IH [OF this Opt.prems(2,3,4,5)] show ?thesis by simp
  qed
next
  case (Rep n r)
  then have e: "e \<in> set (iter n (ends r t) i)" by simp
  have "e \<in> set (iter n (ends r s) i)"
  proof (rule iter_local [of "ends r t" lo hi "ends r s", OF _ _ _ e Rep.prems(4,5)])
    show "\<And>i e. e \<in> set (ends r t i) \<Longrightarrow> i \<le> e" by (rule ends_mono)
    show "\<And>i e. e \<in> set (ends r t i) \<Longrightarrow> lo \<le> i \<Longrightarrow> e \<le> hi \<Longrightarrow> e \<in> set (ends r s i)"
      using Rep.IH Rep.prems(2,3) by blast
    show "\<And>n i e. e \<in> set (iter n (ends r t) i) \<Longrightarrow> i \<le> e"
      using iter_mono [of "ends r t"] ends_mono by blast
  qed
  then show ?case by simp
qed

lemma ends_starts_at_boundary:
  "starts_at_boundary r \<Longrightarrow> e \<in> set (ends r s i) \<Longrightarrow> is_boundary s i"
proof (induction r arbitrary: i e)
  case (Seq a b)
  then obtain k where "k \<in> set (ends a s i)"
    unfolding in_ends_Seq by blast
  with Seq.IH(1) Seq.prems(1) show ?case by simp
qed (auto split: if_splits)

lemma ends_ends_at_boundary:
  "ends_at_boundary r \<Longrightarrow> e \<in> set (ends r s i) \<Longrightarrow> is_boundary s e"
proof (induction r arbitrary: i e)
  case (Seq a b)
  then obtain k where "e \<in> set (ends b s k)"
    unfolding in_ends_Seq by blast
  with Seq.IH(2) Seq.prems(1) show ?case by simp
qed (auto split: if_splits)

section \<open>Properties of global replacement\<close>

lemma scan_done: "length s \<le> i \<Longrightarrow> scan r s i t = t"
  by (subst scan.simps) simp

lemma scan_skip_Nil: "i < length s \<Longrightarrow> ends r s i = [] \<Longrightarrow> scan r s i t = scan r s (Suc i) t"
  by (subst scan.simps) simp

lemma scan_skip_empty:
  "i < length s \<Longrightarrow> ends r s i = e # es \<Longrightarrow> e \<le> i \<Longrightarrow> scan r s i t = scan r s (Suc i) t"
  by (subst scan.simps) simp

lemma scan_hit:
  "i < length s \<Longrightarrow> ends r s i = e # es \<Longrightarrow> i < e \<Longrightarrow>
   scan r s i t = scan r s e (mask_range t i e)"
  by (subst scan.simps) simp

lemma scan_cases_induct [consumes 0, case_names finished skip hit]:
  assumes "\<And>i t. length s \<le> i \<Longrightarrow> P i t"
      and "\<And>i t. i < length s \<Longrightarrow> scan r s i t = scan r s (Suc i) t \<Longrightarrow>
             (\<forall>e \<in> set (take 1 (ends r s i)). e \<le> i) \<Longrightarrow> P (Suc i) t \<Longrightarrow> P i t"
      and "\<And>i t e es. i < length s \<Longrightarrow> ends r s i = e # es \<Longrightarrow> i < e \<Longrightarrow> e \<le> length s \<Longrightarrow>
             scan r s i t = scan r s e (mask_range t i e) \<Longrightarrow>
             P e (mask_range t i e) \<Longrightarrow> P i t"
  shows "P i t"
  using assms
proof (induction r s i t rule: scan.induct)
  case (1 r s i t)
  note fin = "1.prems"(1) and skip = "1.prems"(2) and hit = "1.prems"(3)
  show ?case
  proof (cases "length s \<le> i")
    case True
    then show ?thesis by (rule fin)
  next
    case False
    then have lt: "i < length s" by simp
    show ?thesis
    proof (cases "ends r s i")
      case Nil
      have "P (Suc i) t"
        by (rule "1.IH"(1) [OF False Nil]; (fact fin | fact skip | fact hit))
      moreover have "\<forall>e \<in> set (take 1 (ends r s i)). e \<le> i" using Nil by simp
      ultimately show ?thesis
        using skip [OF lt scan_skip_Nil [OF lt Nil]] by simp
    next
      case (Cons e es)
      show ?thesis
      proof (cases "e \<le> i")
        case True
        have "P (Suc i) t"
          by (rule "1.IH"(2) [OF False Cons True]; (fact fin | fact skip | fact hit))
        moreover have "\<forall>e \<in> set (take 1 (ends r s i)). e \<le> i" using Cons True by simp
        ultimately show ?thesis
          using skip [OF lt scan_skip_empty [OF lt Cons True]] by simp
      next
        case False': False
        then have ie: "i < e" by simp
        have "e \<in> set (ends r s i)" using Cons by simp
        then have el: "e \<le> length s" using ends_le_length lt by (meson less_imp_le_nat)
        have "P e (mask_range t i e)"
          by (rule "1.IH"(3) [OF False Cons False']; (fact fin | fact skip | fact hit))
        then show ?thesis
          using hit [OF lt Cons ie el scan_hit [OF lt Cons ie]] by simp
      qed
    qed
  qed
qed

lemma length_mask_range: "i \<le> e \<Longrightarrow> e \<le> length t \<Longrightarrow> length (mask_range t i e) = length t"
  by (simp add: mask_range_def)

lemma nth_mask_range:
  "i \<le> e \<Longrightarrow> e \<le> length t \<Longrightarrow> j < length t \<Longrightarrow>
   mask_range t i e ! j = (if i \<le> j \<and> j < e then maskChar else t ! j)"
  by (auto simp: mask_range_def nth_append)

lemma scan_length: "length t = length s \<Longrightarrow> length (scan r s i t) = length s"
proof (induction i t rule: scan_cases_induct [where r = r and s = s])
  case (finished i t)
  then show ?case by (simp add: scan_done)
next
  case (skip i t)
  then show ?case by simp
next
  case (hit i t e es)
  then show ?case by (simp add: length_mask_range)
qed

lemma scan_below: "length t = length s \<Longrightarrow> j < i \<Longrightarrow> scan r s i t ! j = t ! j"
proof (induction i t rule: scan_cases_induct [where r = r and s = s])
  case (finished i t)
  then show ?case by (simp add: scan_done)
next
  case (skip i t)
  then show ?case by simp
next
  case (hit i t e es)
  then show ?case by (simp add: length_mask_range nth_mask_range)
qed

lemma scan_pointwise:
  "length t = length s \<Longrightarrow> j < length s \<Longrightarrow>
   scan r s i t ! j = t ! j \<or> scan r s i t ! j = maskChar"
proof (induction i t rule: scan_cases_induct [where r = r and s = s])
  case (finished i t)
  then show ?case by (simp add: scan_done)
next
  case (skip i t)
  then show ?case by simp
next
  case (hit i t e es)
  then show ?case by (auto simp: length_mask_range nth_mask_range split: if_splits)
qed

lemma scan_keeps_mask:
  "length t = length s \<Longrightarrow> j < length s \<Longrightarrow> t ! j = maskChar \<Longrightarrow> scan r s i t ! j = maskChar"
  using scan_pointwise [of t s j r i] by auto

lemma scan_changed:
  "length t = length s \<Longrightarrow> j < length s \<Longrightarrow> scan r s i t ! j \<noteq> t ! j \<Longrightarrow>
   \<exists>a b. i \<le> a \<and> a \<le> j \<and> j < b \<and> b \<in> set (ends r s a)
      \<and> (\<forall>x. a \<le> x \<and> x < b \<longrightarrow> scan r s i t ! x = maskChar)"
proof (induction i t rule: scan_cases_induct [where r = r and s = s])
  case (finished i t)
  then show ?case by (simp add: scan_done)
next
  case (skip i t)
  then obtain a b where "Suc i \<le> a" "a \<le> j" "j < b" "b \<in> set (ends r s a)"
      "\<forall>x. a \<le> x \<and> x < b \<longrightarrow> scan r s (Suc i) t ! x = maskChar"
    by auto
  then show ?case unfolding skip(2) by (intro exI [of _ a] exI [of _ b]) simp
next
  case (hit i t e es)
  let ?t = "mask_range t i e"
  have len: "length ?t = length s" using hit by (simp add: length_mask_range)
  show ?case
  proof (cases "scan r s e ?t ! j = ?t ! j")
    case False
    with hit.IH [OF len hit.prems(2)] obtain a b where
      "e \<le> a" "a \<le> j" "j < b" "b \<in> set (ends r s a)"
      "\<forall>x. a \<le> x \<and> x < b \<longrightarrow> scan r s e ?t ! x = maskChar"
      by auto
    then show ?thesis unfolding hit(5) using hit(3)
      by (intro exI [of _ a] exI [of _ b]) simp
  next
    case True
    with hit.prems(3) have "?t ! j \<noteq> t ! j" unfolding hit(5) by simp
    then have j: "i \<le> j" "j < e"
      using hit by (auto simp: nth_mask_range split: if_splits)
    have "\<forall>x. i \<le> x \<and> x < e \<longrightarrow> scan r s e ?t ! x = maskChar"
    proof (intro allI impI)
      fix x assume x: "i \<le> x \<and> x < e"
      then have "scan r s e ?t ! x = ?t ! x" using scan_below [OF len] by simp
      also have "\<dots> = maskChar" using x hit by (simp add: nth_mask_range)
      finally show "scan r s e ?t ! x = maskChar" .
    qed
    moreover have "e \<in> set (ends r s i)" using hit(2) by simp
    ultimately show ?thesis unfolding hit(5) using j
      by (intro exI [of _ i] exI [of _ e]) simp
  qed
qed

lemma scan_masks_match:
  assumes proper: "\<And>a e. e \<in> set (ends r s a) \<Longrightarrow> a < e"
  shows "length t = length s \<Longrightarrow> ends r s p \<noteq> [] \<Longrightarrow> i \<le> p \<Longrightarrow> p < length s \<Longrightarrow>
     scan r s i t ! p = maskChar"
proof (induction i t rule: scan_cases_induct [where r = r and s = s])
  case (finished i t)
  then show ?case by simp
next
  case (skip i t)
  have "i \<noteq> p"
  proof
    assume "i = p"
    with skip(3) skip.prems(2) obtain e where "e \<in> set (ends r s p)" "e \<le> p"
      by (cases "ends r s p") auto
    with proper show False by fastforce
  qed
  with skip show ?case by simp
next
  case (hit i t e es)
  let ?t = "mask_range t i e"
  have len: "length ?t = length s" using hit by (simp add: length_mask_range)
  show ?case
  proof (cases "e \<le> p")
    case True
    with hit.IH [OF len hit.prems(2)] hit.prems show ?thesis unfolding hit(5) by simp
  next
    case False
    then have "scan r s e ?t ! p = ?t ! p" using scan_below [OF len] by simp
    also have "\<dots> = maskChar" using False hit by (simp add: nth_mask_range)
    finally show ?thesis unfolding hit(5) .
  qed
qed

lemma scan_no_match: "(\<And>p. ends r s p = []) \<Longrightarrow> scan r s i t = t"
proof (induction i t rule: scan_cases_induct [where r = r and s = s])
  case (finished i t)
  then show ?case by (simp add: scan_done)
next
  case (skip i t)
  then show ?case by simp
next
  case (hit i t e es)
  then show ?case by simp
qed

section \<open>Redaction only masks, and leaves nothing to match\<close>

lemma not_word_maskChar: "\<not> is_word maskChar"
  by (simp add: is_word_def maskChar_def)

lemma masking_refl: "masking s s"
  by (simp add: masking_def)

lemma masking_trans: "masking s t \<Longrightarrow> masking t u \<Longrightarrow> masking s u"
  unfolding masking_def by (metis (no_types, lifting))

lemma masking_replace_all:
  assumes wf: "wf_pattern r"
  shows "masking s (replace_all r s)"
proof -
  let ?t = "replace_all r s"
  have len: "length ?t = length s" by (simp add: replace_all_def scan_length)
  have pw: "\<And>j. j < length s \<Longrightarrow> ?t ! j = s ! j \<or> ?t ! j = maskChar"
    unfolding replace_all_def using scan_pointwise [of s s _ r 0] by simp
  have word: "\<And>j. word_at ?t j \<Longrightarrow> word_at s j \<and> ?t ! j \<noteq> maskChar"
    using pw len not_word_maskChar unfolding word_at_def by metis
  have changed: "\<And>j. j < length s \<Longrightarrow> ?t ! j \<noteq> s ! j \<Longrightarrow>
      \<exists>a b. a \<le> j \<and> j < b \<and> b \<in> set (ends r s a)
        \<and> (\<forall>x. a \<le> x \<and> x < b \<longrightarrow> ?t ! x = maskChar)"
    unfolding replace_all_def using scan_changed [of s s _ r 0] by blast
  have "is_boundary s q" if b: "is_boundary ?t q" for q
  proof (cases "word_at ?t q")
    case False
    with b have q: "0 < q" "word_at ?t (q - 1)" unfolding is_boundary_def by auto
    then have sq1: "word_at s (q - 1)" "?t ! (q - 1) \<noteq> maskChar" using word by auto
    show ?thesis
    proof (cases "word_at s q")
      case False
      with sq1 q show ?thesis unfolding is_boundary_def by simp
    next
      case True
      with False have "q < length s" "?t ! q \<noteq> s ! q"
        unfolding word_at_def using len by auto
      from changed [OF this] obtain a b' where ab: "a \<le> q" "q < b'" "b' \<in> set (ends r s a)"
        "\<forall>x. a \<le> x \<and> x < b' \<longrightarrow> ?t ! x = maskChar" by blast
      have "\<not> a \<le> q - 1" using ab(2,4) sq1(2) by (metis diff_le_self le_less_trans)
      with ab(1) q(1) have "a = q" by simp
      with ab(3) wf show ?thesis
        using ends_starts_at_boundary unfolding wf_pattern_def by blast
    qed
  next
    case True
    with b have nq: "\<not> (0 < q \<and> word_at ?t (q - 1))" unfolding is_boundary_def by auto
    from True have sq: "word_at s q" "?t ! q \<noteq> maskChar" using word by auto
    show ?thesis
    proof (cases "0 < q \<and> word_at s (q - 1)")
      case False
      with sq show ?thesis unfolding is_boundary_def by auto
    next
      case True': True
      with nq have "q - 1 < length s" "?t ! (q - 1) \<noteq> s ! (q - 1)"
        unfolding word_at_def using len by auto
      from changed [OF this] obtain a b' where ab: "a \<le> q - 1" "q - 1 < b'" "b' \<in> set (ends r s a)"
        "\<forall>x. a \<le> x \<and> x < b' \<longrightarrow> ?t ! x = maskChar" by blast
      have "\<not> q < b'" using ab(1,4) sq(2) True' by (metis diff_le_self le_trans)
      with ab(2) have "b' = q" by simp
      with ab(3) wf show ?thesis
        using ends_ends_at_boundary unfolding wf_pattern_def by blast
    qed
  qed
  with len pw show ?thesis unfolding masking_def by blast
qed

lemma boundary_le_length: "is_boundary s i \<Longrightarrow> i \<le> length s"
  unfolding is_boundary_def word_at_def by (cases "i \<le> length s") auto

lemma no_match_after_masking:
  assumes wf: "wf_pattern r" and m: "masking (replace_all r s) u"
  shows "ends r u p = []"
proof (rule ccontr)
  assume "ends r u p \<noteq> []"
  then obtain e where e: "e \<in> set (ends r u p)" by (cases "ends r u p") auto
  let ?t = "replace_all r s"
  have su: "masking s u" using masking_trans [OF masking_replace_all [OF wf] m] .
  have pe: "p < e" using ends_min_len [OF e] wf unfolding wf_pattern_def by simp
  have "is_boundary u p" using ends_starts_at_boundary e wf unfolding wf_pattern_def by blast
  then have "p \<le> length u" by (rule boundary_le_length)
  then have el: "e \<le> length u" using ends_le_length [OF e] by simp
  have av: "\<forall>j. p \<le> j \<and> j < e \<longrightarrow> u ! j \<noteq> maskChar"
    using ends_avoids [OF _ e] wf unfolding wf_pattern_def by blast
  have len: "length s = length u" using su unfolding masking_def by simp
  have eq: "\<forall>j. p \<le> j \<and> j < e \<longrightarrow> s ! j = u ! j"
    using av su el unfolding masking_def by (metis le_less_trans not_le_imp_less le_antisym less_le_trans)
  have bd: "\<forall>q. p \<le> q \<and> q \<le> e \<and> is_boundary u q \<longrightarrow> is_boundary s q"
    using su unfolding masking_def by blast
  have "e \<in> set (ends r s p)"
    using ends_local [OF len e eq bd] by simp
  then have ne: "ends r s p \<noteq> []" by auto
  have proper: "\<And>a e. e \<in> set (ends r s a) \<Longrightarrow> a < e"
    using ends_min_len wf unfolding wf_pattern_def by fastforce
  have pl: "p < length s" using pe el len by simp
  have "?t ! p = maskChar"
    unfolding replace_all_def using scan_masks_match [of r s s p 0, OF proper _ ne] pl by simp
  moreover have "u ! p = ?t ! p \<or> u ! p = maskChar"
    using m pl len unfolding masking_def by (metis)
  ultimately have "u ! p = maskChar" by auto
  with av pe show False by auto
qed


lemma apply_all_Nil: "apply_all [] s = s"
  by (simp add: apply_all_def)

lemma apply_all_Cons: "apply_all (p # ps) s = apply_all ps (replace_all p s)"
  by (simp add: apply_all_def)

lemma apply_all_append: "apply_all (ps @ qs) s = apply_all qs (apply_all ps s)"
  by (simp add: apply_all_def)

lemma masking_apply_all: "(\<forall>r \<in> set ps. wf_pattern r) \<Longrightarrow> masking s (apply_all ps s)"
proof (induction ps arbitrary: s)
  case Nil
  show ?case by (simp add: apply_all_Nil masking_refl)
next
  case (Cons p ps)
  have "masking s (replace_all p s)" using Cons.prems by (simp add: masking_replace_all)
  moreover have "masking (replace_all p s) (apply_all ps (replace_all p s))"
    using Cons.IH Cons.prems by simp
  ultimately show ?case unfolding apply_all_Cons by (rule masking_trans)
qed

lemma no_match_after_apply_all:
  assumes "\<forall>r \<in> set ps. wf_pattern r" and "r \<in> set ps"
  shows "ends r (apply_all ps s) p = []"
proof -
  from assms(2) obtain pre post where ps: "ps = pre @ r # post" by (meson split_list)
  let ?s = "apply_all pre s"
  have "apply_all ps s = apply_all post (replace_all r ?s)"
    unfolding ps apply_all_append apply_all_Cons ..
  moreover have "masking (replace_all r ?s) (apply_all post (replace_all r ?s))"
    using masking_apply_all assms(1) ps by simp
  ultimately show ?thesis using no_match_after_masking assms ps by simp
qed

lemma apply_all_fixed: "(\<forall>r \<in> set ps. \<forall>p. ends r u p = []) \<Longrightarrow> apply_all ps u = u"
proof (induction ps)
  case Nil
  show ?case by (simp add: apply_all_Nil)
next
  case (Cons p ps)
  have "replace_all p u = u"
    unfolding replace_all_def using scan_no_match [of p u 0 u] Cons.prems by simp
  with Cons show ?case by (simp add: apply_all_Cons)
qed

lemma wf_dataPatterns: "\<forall>r \<in> set dataPatterns. wf_pattern r"
  by (simp add: dataPatterns_def wf_pattern_def email_def phone_def ssn_def creditCard_def
      ipAddress_def digits_1_3_def maskChar_def is_word_def is_digit_def is_js_space_def)

lemma sanitizeTextPatterns_apply_all: "sanitizeTextPatterns = apply_all dataPatterns"
  by (auto simp: sanitizeTextPatterns_def apply_all_def)

lemma sanitizeTextPatterns_idem:
  "sanitizeTextPatterns (sanitizeTextPatterns s) = sanitizeTextPatterns s"
  unfolding sanitizeTextPatterns_apply_all
  using apply_all_fixed no_match_after_apply_all wf_dataPatterns by blast


lemma iter_numeral: "iter (numeral k) f i = concat (map (iter (pred_numeral k) f) (f i))"
  by (simp add: numeral_eq_Suc)

lemmas text_eval = iter_numeral ascii_def maskChar_def is_word_def is_digit_def is_js_space_def
  is_boundary_def word_at_def
  dataPatterns_def email_def phone_def ssn_def creditCard_def ipAddress_def digits_1_3_def
  sanitizeTextPatterns_def replace_all_def mask_range_def scan.simps



















section \<open>Properties of payload sanitization\<close>

lemma collect_Inr_iff: "collect rs = Inr ys \<longleftrightarrow> rs = map Inr ys"
proof (induction rs arbitrary: ys rule: collect.induct)
  case 1
  show ?case by auto
next
  case (2 e rs)
  show ?case by auto
next
  case (3 x rs)
  show ?case
  proof (cases ys)
    case Nil
    then show ?thesis by (simp split: sum.splits)
  next
    case (Cons y ys')
    with 3 [of ys'] show ?thesis by (auto split: sum.splits)
  qed
qed

lemma collect_map_fixed:
  assumes "map f xs = map Inr ys" and "\<And>x y. x \<in> set xs \<Longrightarrow> f x = Inr y \<Longrightarrow> g y = Inr y"
  shows "collect (map g ys) = Inr ys"
proof -
  have "map g ys = map Inr ys"
  proof (rule nth_equalityI)
    show "length (map g ys) = length (map Inr ys)" by simp
  next
    fix i assume "i < length (map g ys)"
    then have i: "i < length ys" by simp
    from assms(1) have len: "length xs = length ys" by (metis length_map)
    from assms(1) have "map f xs ! i = map Inr ys ! i" by simp
    with i len have "f (xs ! i) = Inr (ys ! i)" by simp
    moreover have "xs ! i \<in> set xs" using i len by simp
    ultimately have "g (ys ! i) = Inr (ys ! i)" using assms(2) by blast
    with i show "map g ys ! i = map Inr ys ! i" by simp
  qed
  then show ?thesis by (simp add: collect_Inr_iff)
qed

lemma maskValue_masked: "maskValue v = Inr m \<Longrightarrow> maskValue (JStr m) = Inr m"
  by (auto simp: maskValue_def split: if_splits option.splits)

lemma sanitizeTextPatterns_circular: "sanitizeTextPatterns circular = circular"
  by (simp add: circular_def text_eval)

lemma sanitizeValue_fixed: "sanitizeValue x V = Inr y \<Longrightarrow> sanitizeValue y V = Inr y"
proof (induction x V arbitrary: y rule: sanitizeValue.induct)
  case (1 s V)
  then show ?case by (auto simp: sanitizeTextPatterns_idem)
next
  case (2 i str xs V)
  show ?case
  proof (cases "i \<in> V")
    case True
    with "2.prems" show ?thesis by (auto simp: sanitizeTextPatterns_circular)
  next
    case False
    let ?f = "\<lambda>item. sanitizeValue item (insert i V)"
    from "2.prems" False obtain ys where ys: "collect (map ?f xs) = Inr ys"
        "y = JArr i (array_String ys) ys"
      by (auto split: sum.splits)
    then have "map ?f xs = map Inr ys" by (simp add: collect_Inr_iff)
    then have "collect (map ?f ys) = Inr ys"
      using "2.IH" [OF False] by (rule collect_map_fixed)
    with ys False show ?thesis by simp
  qed
next
  case (3 i str kvs V)
  show ?case
  proof (cases "i \<in> V")
    case True
    with "3.prems" show ?thesis by (auto simp: sanitizeTextPatterns_circular)
  next
    case False
    let ?g = "\<lambda>(key, val).
                case (if isSensitiveField key then map_sum id JStr (maskValue val)
                      else sanitizeValue val (insert i V)) of
                  Inl e \<Rightarrow> Inl e
                | Inr v \<Rightarrow> Inr (key, v)"
    from "3.prems" False obtain res where res: "collect (map ?g kvs) = Inr res"
        "y = JObj i (Some object_Object) res"
      by (auto split: sum.splits)
    then have m: "map ?g kvs = map Inr res" by (simp add: collect_Inr_iff)
    have "collect (map ?g res) = Inr res"
    proof (rule collect_map_fixed [OF m])
      fix x y' assume x: "x \<in> set kvs" and gx: "?g x = Inr y'"
      obtain k v where kv: "x = (k, v)" by (cases x)
      obtain k' v' where kv': "y' = (k', v')" by (cases y')
      show "?g y' = Inr y'"
      proof (cases "isSensitiveField k")
        case True
        with gx kv kv' obtain m where "maskValue v = Inr m" "k' = k" "v' = JStr m"
          by (cases "maskValue v") auto
        with True kv' show ?thesis by (simp add: maskValue_masked)
      next
        case False': False
        with gx kv kv' have "sanitizeValue v (insert i V) = Inr v'" "k' = k"
          by (auto split: sum.splits)
        with "3.IH" [OF False x kv [symmetric] False'] False' kv' show ?thesis by simp
      qed
    qed
    with res False show ?thesis by simp
  qed
qed simp_all

lemma isSensitiveField_pwd: "isSensitiveField (ascii ''pwd'')"
  by (simp add: isSensitiveField_def toLowerCase_def lower1_def sensitiveFields_def ascii_def)

lemma isSensitiveField_ip: "\<not> isSensitiveField (ascii ''ip'')"
  by (simp add: isSensitiveField_def toLowerCase_def lower1_def sensitiveFields_def ascii_def)

lemma isSensitiveField_self: "\<not> isSensitiveField (ascii ''self'')"
  by (simp add: isSensitiveField_def toLowerCase_def lower1_def sensitiveFields_def ascii_def)

lemma length_ascii: "length (ascii s) = length s"
  by (simp add: ascii_def)

lemmas value_eval = sanitizeData_def maskValue_def array_String_def
  isSensitiveField_pwd isSensitiveField_ip isSensitiveField_self
  identify_sanitized_def length_ascii

text \<open>
  C3, as stated, fails in its last part: with \<open>debug\<close> off, sanitizing the traits
  \<open>{pwd: Object.create(null)}\<close> (the conversion of the value to a string throws)
  returns the traits unchanged and writes a warning to the console.
\<close>

theorem sanitizeData_warns_counterexample:
  "debug \<lparr>debug = False, privacyEngine = \<lparr>mode = Balanced\<rparr>\<rparr> = False
   \<and> identify_sanitized \<lparr>debug = False, privacyEngine = \<lparr>mode = Balanced\<rparr>\<rparr>
        (JObj 1 (Some object_Object) [(ascii ''pwd'', JObj 2 None [])])
     = (JObj 1 (Some object_Object) [(ascii ''pwd'', JObj 2 None [])], [Warn TypeError])"
  by (simp add: value_eval)

text \<open>
  C3, amended. \<open>sanitizeData\<close> always returns: null and undefined come back unchanged
  with nothing logged; when the traversal throws, the original value comes back unchanged
  and one warning is logged; otherwise the sanitized value comes back with nothing logged.
  The warning does not depend on the debug flag.
\<close>

theorem sanitizeData_recovers:
  "sanitizeData this JNull = (JNull, [])
   \<and> sanitizeData this JUndefined = (JUndefined, [])
   \<and> (\<forall>e. sanitizeValue data {} = Inl e \<longrightarrow> sanitizeData this data = (data, [Warn e]))
   \<and> (\<forall>v. sanitizeValue data {} = Inr v \<longrightarrow> sanitizeData this data = (v, []))
   \<and> identify_sanitized (s\<lparr>debug := d\<rparr>) data = identify_sanitized s data"
  by (cases data) (auto simp: sanitizeData_def identify_sanitized_def)

theorem sanitizeData_recovers_witness:
  "sanitizeData \<lparr>mode = Strict\<rparr>
      (JArr 1 (Some object_Object) [JObj 2 (Some object_Object) [(ascii ''pwd'', JObj 3 None [])]])
     = (JArr 1 (Some object_Object)
          [JObj 2 (Some object_Object) [(ascii ''pwd'', JObj 3 None [])]], [Warn TypeError])"
proof -
  have "sanitizeValue
          (JArr 1 (Some object_Object)
             [JObj 2 (Some object_Object) [(ascii ''pwd'', JObj 3 None [])]]) {}
          = Inl TypeError"
    by (simp add: value_eval)
  then show ?thesis
    using sanitizeData_recovers
      [of "\<lparr>mode = Strict\<rparr>"
          "JArr 1 (Some object_Object)
             [JObj 2 (Some object_Object) [(ascii ''pwd'', JObj 3 None [])]]"]
    by blast
qed

text \<open>
  C6. Sanitizing the result of \<open>sanitizeData\<close> again returns it unchanged (and logs what
  the first run logged), for strings, arrays and nested objects, with or without circular
  references: masked text holds no further match, a masked field is masked to itself, the
  marker of a circular reference holds no match, and when the first run failed its result
  is the input.
\<close>

theorem sanitizeData_idempotent:
  "sanitizeData this (fst (sanitizeData this x)) = sanitizeData this x
   \<and> fst (sanitizeData this (fst (sanitizeData this x))) = fst (sanitizeData this x)"
proof (cases "sanitizeValue x {}")
  case (Inl e)
  then show ?thesis by (simp add: sanitizeData_def)
next
  case (Inr y)
  with sanitizeValue_fixed [OF Inr] show ?thesis by (simp add: sanitizeData_def)
qed

theorem sanitizeData_idempotent_witness:
  "sanitizeData \<lparr>mode = Balanced\<rparr>
      (JObj 1 (Some object_Object)
         [(ascii ''pwd'', JStr [maskChar, maskChar]),
          (ascii ''self'', JStr circular),
          (ascii ''ip'',
             JArr 2 (Some [maskChar, maskChar, maskChar, maskChar, maskChar, maskChar, maskChar])
               [JStr [maskChar, maskChar, maskChar, maskChar, maskChar, maskChar, maskChar]])])
   = (JObj 1 (Some object_Object)
        [(ascii ''pwd'', JStr [maskChar, maskChar]),
         (ascii ''self'', JStr circular),
         (ascii ''ip'',
            JArr 2 (Some [maskChar, maskChar, maskChar, maskChar, maskChar, maskChar, maskChar])
              [JStr [maskChar, maskChar, maskChar, maskChar, maskChar, maskChar, maskChar]])],
      [])"
proof -
  have t: "sanitizeTextPatterns (ascii ''1.1.1.1'')
           = [maskChar, maskChar, maskChar, maskChar, maskChar, maskChar, maskChar]"
    by (simp add: text_eval)
  have "sanitizeData \<lparr>mode = Balanced\<rparr>
          (JObj 1 (Some object_Object)
             [(ascii ''pwd'', JPrim (ascii ''42'')),
              (ascii ''self'', JObj 1 (Some object_Object) []),
              (ascii ''ip'', JArr 2 (Some (ascii ''1.1.1.1'')) [JStr (ascii ''1.1.1.1'')])])
        = (JObj 1 (Some object_Object)
             [(ascii ''pwd'', JStr [maskChar, maskChar]),
              (ascii ''self'', JStr circular),
              (ascii ''ip'',
                 JArr 2 (Some [maskChar, maskChar, maskChar, maskChar, maskChar, maskChar,
                               maskChar])
                   [JStr [maskChar, maskChar, maskChar, maskChar, maskChar, maskChar,
                          maskChar]])], [])"
    by (simp add: value_eval t)
  then show ?thesis
    using sanitizeData_idempotent
      [of "\<lparr>mode = Balanced\<rparr>"
          "JObj 1 (Some object_Object)
             [(ascii ''pwd'', JPrim (ascii ''42'')),
              (ascii ''self'', JObj 1 (Some object_Object) []),
              (ascii ''ip'', JArr 2 (Some (ascii ''1.1.1.1'')) [JStr (ascii ''1.1.1.1'')])]"]
    by simp
qed

end
